theory Spec2Isabelle
  imports Main "HOL-Library.Word"
begin

unbundle bit_operations_syntax

section \<open>The data model of \<open>boost::math::big_whole\<close>\<close>

text \<open>
  \<open>word_type\<close> is \<open>unsigned int\<close> (32 bits, so \<open>limits_type::digits\<close> is 32) and
  \<open>uintmax_t\<close> has 64 bits. A \<open>std::valarray<T>\<close> is a list of \<open>T\<close>. The only data
  member \<open>x_ptr\<close> (the \<open>auto_ptr\<close> field \<open>x_\<close> of the class) is an owning pointer to a
  valarray of words: \<open>None\<close> is the null pointer, \<open>Some []\<close> an allocated valarray
  of size 0.

  \<open>std::size_t\<close> has 64 bits and \<open>int\<close> has 32. Sizes, word indices and bit indices are
  natural numbers, and allocation never fails. Where the code computes a bit index or a size
  in a way that can leave its type, the wrap-around is written out: the \<open>int\<close> counter
  \<open>jj\<close> of \<open>to_bit_indices\<close>, and \<open>max() + 1\<close> in \<open>bit_indices_to_va\<close> and
  \<open>to_bit_vector\<close>.
\<close>

type_synonym word_type = "32 word"
type_synonym uintmax_t = "64 word"
type_synonym va_type = "word_type list"
type_synonym mask_type = "bool list"
type_synonym index_type = "nat list"

abbreviation limits_digits :: nat where
  "limits_digits \<equiv> 32"

abbreviation uintmax_digits :: nat where
  "uintmax_digits \<equiv> 64"

record big_whole =
  x_ptr :: "va_type option"

datatype bit_operation = reset_bit | set_bit | flip_bit

text \<open>
  \<open>valarray::operator[](size_t n)\<close> requires \<open>n < size()\<close>, and so does every element of
  an index array used as a subscript. A subscript outside that domain raises nothing in C++:
  the behaviour is undefined. The model records it as a fault and goes on: a function that
  can subscript out of domain returns its faults beside its value, and the value means
  something only when no fault is recorded or the subscript is never used for an access.
\<close>

datatype fault = Subscript_Out_Of_Domain nat nat

definition subscript_check :: "'a list \<Rightarrow> nat \<Rightarrow> fault list" where
  "subscript_check xs n = (if n < length xs then [] else [Subscript_Out_Of_Domain n (length xs)])"

text \<open>
  The integer conversions of \<open>to_bit_indices\<close>: \<open>int jj = ii\<close> keeps the low 32 bits of a
  \<open>size_t\<close> as a two's complement number, \<open>++jj\<close> is taken to wrap in 32 bits, and
  \<open>temp2[...] = jj\<close> converts back to \<open>size_t\<close> modulo \<open>2^64\<close>.
\<close>

abbreviation size_t_range :: nat where
  "size_t_range \<equiv> 2 ^ 64"

definition int_of_size_t :: "nat \<Rightarrow> int" where
  "int_of_size_t n = signed_take_bit 31 (int n)"

definition int_incr :: "int \<Rightarrow> int" where
  "int_incr k = signed_take_bit 31 (k + 1)"

definition size_t_of_int :: "int \<Rightarrow> nat" where
  "size_t_of_int k = nat (k mod 2 ^ 64)"

subsection \<open>Valarray helpers\<close>

text \<open>\<open>valarray::max()\<close>, called on non-empty arrays only.\<close>

definition va_max :: "'a::linorder list \<Rightarrow> 'a" where
  "va_max xs = fold max (tl xs) (hd xs)"

text \<open>\<open>p[slice(start, size xs, 1)] = xs\<close>.\<close>

definition slice_assign :: "'a list \<Rightarrow> nat \<Rightarrow> 'a list \<Rightarrow> 'a list" where
  "slice_assign p start xs = take start p @ xs @ drop (start + length xs) p"

text \<open>\<open>v[slice(start, n, 1)] = f(v[slice(start, n, 1)])\<close>, element by element.\<close>

definition slice_map :: "('a \<Rightarrow> 'a) \<Rightarrow> nat \<Rightarrow> nat \<Rightarrow> 'a list \<Rightarrow> 'a list" where
  "slice_map f start n v = take start v @ map f (take n (drop start v)) @ drop (start + n) v"

text \<open>
  \<open>temp[i] = true\<close> for an index array \<open>i\<close> (indirect assignment): the array after the
  assignment, and the subscripts of \<open>i\<close> that lie outside \<open>temp\<close>.
\<close>

definition indirect_assign :: "'a list \<Rightarrow> nat list \<Rightarrow> 'a \<Rightarrow> 'a list" where
  "indirect_assign temp i val = fold (\<lambda>k t. t[k := val]) i temp"

definition indirect_check :: "'a list \<Rightarrow> nat list \<Rightarrow> fault list" where
  "indirect_check temp i = concat (map (subscript_check temp) i)"

text \<open>
  \<open>(*v)[i] = f((*v)[i])\<close> through the buffer pointer \<open>v\<close>. Every use below comes after
  the growth step or behind the guard on \<open>v_size\<close>, so that \<open>v\<close> is not null and \<open>i\<close> is
  in range.
\<close>

definition va_modify :: "va_type option \<Rightarrow> nat \<Rightarrow> (word_type \<Rightarrow> word_type) \<Rightarrow> va_type option" where
  "va_modify v i f = map_option (\<lambda>a. a[i := f (a ! i)]) v"

definition va_size :: "va_type option \<Rightarrow> nat" where
  "va_size v = (case v of None \<Rightarrow> 0 | Some a \<Rightarrow> length a)"

subsection \<open>Static helper functions\<close>

definition words_for_bits :: "nat \<Rightarrow> nat" where
  "words_for_bits bits = bits div limits_digits + (if 0 \<noteq> bits mod limits_digits then 1 else 0)"

definition bit_vector_to_va :: "mask_type \<Rightarrow> va_type" where
  "bit_vector_to_va b =
     (let bs = length b in
      if bs \<noteq> 0 then
        fold (\<lambda>i temp.
               if b ! i then
                 (let wi = i div limits_digits; wj = i mod limits_digits
                  in temp[wi := temp ! wi OR push_bit wj 1])
               else temp)
          [0..<bs] (replicate (words_for_bits bs) 0)
      else [])"

text \<open>
  In \<open>bit_indices_to_va\<close> and \<open>to_bit_vector\<close> the mask is resized to \<open>max() + 1\<close>, a
  \<open>size_t\<close> sum: for the index \<open>2^64 - 1\<close> the new size is 0.
\<close>

definition bit_indices_to_va :: "index_type \<Rightarrow> fault list \<times> va_type" where
  "bit_indices_to_va i =
     (if length i \<noteq> 0 then
        (let temp = replicate ((va_max i + 1) mod size_t_range) False
         in (indirect_check temp i, bit_vector_to_va (indirect_assign temp i True)))
      else ([], bit_vector_to_va []))"

fun wlength_loop :: "va_type \<Rightarrow> nat \<Rightarrow> nat" where
  "wlength_loop v 0 = 0"
| "wlength_loop v (Suc i) = (if v ! i = 0 then wlength_loop v i else Suc i)"

definition wlength :: "va_type \<Rightarrow> nat" where
  "wlength v = wlength_loop v (length v)"

fun blength_loop :: "word_type \<Rightarrow> nat \<Rightarrow> nat" where
  "blength_loop w 0 = 0"
| "blength_loop w (Suc i) = (if w AND push_bit i 1 = 0 then blength_loop w i else Suc i)"

definition blength :: "word_type \<Rightarrow> nat" where
  "blength w = blength_loop w limits_digits"

function count_set_bits_loop :: "nat \<Rightarrow> word_type \<Rightarrow> word_type \<Rightarrow> word_type" where
  "count_set_bits_loop i w c =
     (if w \<noteq> 0 \<and> i < limits_digits
      then count_set_bits_loop (i + 1) (drop_bit 1 w) (c + (if 0 \<noteq> w AND 1 then 1 else 0))
      else c)"
  by pat_completeness auto
termination
  by (relation "measure (\<lambda>(i, w, c). limits_digits - i)") auto

definition count_set_bits_for_word :: "word_type \<Rightarrow> word_type" where
  "count_set_bits_for_word w = count_set_bits_loop 0 w 0"

subsection \<open>Construction, swap and reconfiguration\<close>

definition big_whole_default :: big_whole where
  "big_whole_default = \<lparr>x_ptr = None\<rparr>"

definition big_whole_copy :: "big_whole \<Rightarrow> big_whole" where
  "big_whole_copy other = \<lparr>x_ptr = (case x_ptr other of Some a \<Rightarrow> Some a | None \<Rightarrow> None)\<rparr>"

definition big_whole_of_mask :: "mask_type \<Rightarrow> big_whole" where
  "big_whole_of_mask b = \<lparr>x_ptr = Some (bit_vector_to_va b)\<rparr>"

definition big_whole_of_indices :: "index_type \<Rightarrow> fault list \<times> big_whole" where
  "big_whole_of_indices i =
     (case bit_indices_to_va i of (faults, va) \<Rightarrow> (faults, \<lparr>x_ptr = Some va\<rparr>))"

text \<open>\<open>a.swap(b)\<close>: the two objects after the exchange of their buffers.\<close>

definition swap :: "big_whole \<Rightarrow> big_whole \<Rightarrow> big_whole \<times> big_whole" where
  "swap this other = (this\<lparr>x_ptr := x_ptr other\<rparr>, other\<lparr>x_ptr := x_ptr this\<rparr>)"

definition reconfigure_indices :: "index_type \<Rightarrow> big_whole \<Rightarrow> fault list \<times> big_whole" where
  "reconfigure_indices i this =
     (case big_whole_of_indices i of (faults, temp) \<Rightarrow> (faults, fst (swap this temp)))"

definition reconfigure_mask :: "mask_type \<Rightarrow> big_whole \<Rightarrow> big_whole" where
  "reconfigure_mask b this = fst (swap this (big_whole_of_mask b))"

subsection \<open>Value-accessing operations\<close>

fun to_uintmax_loop :: "va_type \<Rightarrow> nat \<Rightarrow> uintmax_t \<Rightarrow> uintmax_t" where
  "to_uintmax_loop v 0 temp = temp"
| "to_uintmax_loop v (Suc n) temp = to_uintmax_loop v n (push_bit limits_digits temp OR ucast (v ! n))"

definition to_uintmax :: "big_whole \<Rightarrow> uintmax_t" where
  "to_uintmax this =
     (if uintmax_digits > limits_digits then
        (case x_ptr this of
           Some v \<Rightarrow> to_uintmax_loop v (length v) 0
         | None \<Rightarrow> 0)
      else
        (case x_ptr this of
           Some v \<Rightarrow> if length v \<noteq> 0 then ucast (v ! 0) else 0
         | None \<Rightarrow> 0))"

text \<open>
  The two nested loops of \<open>to_bit_indices\<close>: the state is the scratch array \<open>temp2\<close>
  (of \<open>s * d\<close> entries) and the counter \<open>bits_used\<close>. In round \<open>j\<close> of the inner loop the
  \<open>int\<close> counter \<open>jj\<close>, which started as \<open>ii\<close>, has been incremented \<open>j\<close> times.
\<close>

definition to_bit_indices_inner ::
  "word_type \<Rightarrow> nat \<Rightarrow> nat \<Rightarrow> index_type \<times> nat \<Rightarrow> index_type \<times> nat" where
  "to_bit_indices_inner w ii j st =
     (case st of (temp2, bits_used) \<Rightarrow>
        (let jj = (int_incr ^^ j) (int_of_size_t ii)
         in if push_bit j 1 AND w \<noteq> 0 then (temp2[bits_used := size_t_of_int jj], bits_used + 1)
            else (temp2, bits_used)))"

definition to_bit_indices_outer :: "va_type \<Rightarrow> nat \<Rightarrow> index_type \<times> nat \<Rightarrow> index_type \<times> nat" where
  "to_bit_indices_outer v i st =
     fold (to_bit_indices_inner (v ! i) (i * limits_digits)) [0..<limits_digits] st"

definition to_bit_indices :: "big_whole \<Rightarrow> index_type" where
  "to_bit_indices this =
     (case x_ptr this of
        None \<Rightarrow> []
      | Some v \<Rightarrow>
          (let s = length v in
           if s \<noteq> 0 then
             (case fold (to_bit_indices_outer v) [0..<s] (replicate (s * limits_digits) 0, 0) of
                (temp2, bits_used) \<Rightarrow> if bits_used \<noteq> 0 then take bits_used temp2 else [])
           else []))"

definition to_bit_vector :: "big_whole \<Rightarrow> fault list \<times> mask_type" where
  "to_bit_vector this =
     (let indices = to_bit_indices this in
      if length indices \<noteq> 0 then
        (let temp = replicate ((va_max indices + 1) mod size_t_range) False
         in (indirect_check temp indices, indirect_assign temp indices True))
      else ([], []))"

subsection \<open>Bit-inspecting operations\<close>

definition length_bw :: "big_whole \<Rightarrow> nat" where
  "length_bw this =
     (case x_ptr this of
        Some v \<Rightarrow>
          (let o' = wlength v in
           if o' \<noteq> 0 then (let oo = o' - 1 in blength (v ! oo) + oo * limits_digits) else 0)
      | None \<Rightarrow> 0)"

text \<open>
  \<open>v->apply(count_set_bits_for_word).sum()\<close> adds up \<open>word_type\<close> values, so the sum is
  a 32-bit word; the result is then converted to \<open>size_t\<close>.
\<close>

definition count :: "big_whole \<Rightarrow> nat" where
  "count this =
     (case x_ptr this of
        Some v \<Rightarrow> if length v \<noteq> 0 then unat (sum_list (map count_set_bits_for_word v)) else 0
      | None \<Rightarrow> 0)"

definition any :: "big_whole \<Rightarrow> bool" where
  "any this = (case x_ptr this of None \<Rightarrow> False | Some v \<Rightarrow> length v \<noteq> 0 \<and> va_max v \<noteq> 0)"

definition none :: "big_whole \<Rightarrow> bool" where
  "none this = (\<not> any this)"

definition test :: "big_whole \<Rightarrow> nat \<Rightarrow> bool" where
  "test this i =
     (case x_ptr this of
        Some v \<Rightarrow>
          (let wi = i div limits_digits; wj = i mod limits_digits
           in if length v > wi then v ! wi AND push_bit wj 1 \<noteq> 0 else False)
      | None \<Rightarrow> False)"

subsection \<open>Bit-twiddling operations\<close>

text \<open>
  The growth step shared by both forms of \<open>bit_change\<close>: a new valarray of \<open>n\<close> zero
  words, with the old words copied to its front.
\<close>

definition grow :: "va_type option \<Rightarrow> nat \<Rightarrow> va_type option" where
  "grow v n =
     (let p = replicate n 0 in
      Some (if v \<noteq> None \<and> va_size v \<noteq> 0 then slice_assign p 0 (the v) else p))"

definition bit_change :: "nat \<Rightarrow> bit_operation \<Rightarrow> big_whole \<Rightarrow> big_whole" where
  "bit_change i op this =
     (let ii = i div limits_digits;
          v = x_ptr this;
          v = (if ii \<ge> va_size v \<and> op \<noteq> reset_bit then grow v (ii + 1) else v);
          v_size = va_size v;
          ij = i mod limits_digits;
          m = (push_bit ij 1 :: word_type)
      in case op of
           flip_bit \<Rightarrow> this\<lparr>x_ptr := va_modify v ii (\<lambda>w. w XOR m)\<rparr>
         | set_bit \<Rightarrow> this\<lparr>x_ptr := va_modify v ii (\<lambda>w. w OR m)\<rparr>
         | reset_bit \<Rightarrow>
             if ii < v_size then this\<lparr>x_ptr := va_modify v ii (\<lambda>w. w AND NOT m)\<rparr>
             else this\<lparr>x_ptr := v\<rparr>)"

definition bit_change_range :: "nat \<Rightarrow> nat \<Rightarrow> bit_operation \<Rightarrow> big_whole \<Rightarrow> big_whole" where
  "bit_change_range from to op this =
     (let (from, to) = (if from > to then (to, from) else (from, to));
          fi = from div limits_digits;
          fj = from mod limits_digits;
          ti = to div limits_digits;
          tj = to mod limits_digits;
          v = x_ptr this;
          fm = (NOT (push_bit fj 1 - 1) :: word_type);
          tm = (push_bit tj 1 OR (push_bit tj 1 - 1) :: word_type);
          v = (if ti \<ge> va_size v \<and> op \<noteq> reset_bit then grow v (ti + 1) else v);
          v_size = va_size v
      in if fi = ti then
           (let ftm = fm AND tm;
                v = (case op of
                       flip_bit \<Rightarrow> va_modify v fi (\<lambda>w. w XOR ftm)
                     | set_bit \<Rightarrow> va_modify v fi (\<lambda>w. w OR ftm)
                     | reset_bit \<Rightarrow>
                         if ti < v_size then va_modify v fi (\<lambda>w. w AND NOT ftm) else v)
            in this\<lparr>x_ptr := v\<rparr>)
         else
           (let v = (case op of
                       flip_bit \<Rightarrow> va_modify v fi (\<lambda>w. w XOR fm)
                     | set_bit \<Rightarrow> va_modify v fi (\<lambda>w. w OR fm)
                     | reset_bit \<Rightarrow>
                         if fi < v_size then va_modify v fi (\<lambda>w. w AND NOT fm) else v);
                start = fi + 1;
                stop = min v_size ti;
                v = (if stop > start then
                       (case op of
                          flip_bit \<Rightarrow> map_option (slice_map (\<lambda>w. w XOR - 1) start (stop - start)) v
                        | set_bit \<Rightarrow> map_option (slice_map (\<lambda>w. - 1) start (stop - start)) v
                        | reset_bit \<Rightarrow> map_option (slice_map (\<lambda>w. 0) start (stop - start)) v)
                     else v);
                v = (case op of
                       flip_bit \<Rightarrow> va_modify v ti (\<lambda>w. w XOR tm)
                     | set_bit \<Rightarrow> va_modify v ti (\<lambda>w. w OR tm)
                     | reset_bit \<Rightarrow>
                         if ti < v_size then va_modify v ti (\<lambda>w. w AND NOT tm) else v)
            in this\<lparr>x_ptr := v\<rparr>))"

definition reset_all :: "big_whole \<Rightarrow> big_whole" where
  "reset_all this = this\<lparr>x_ptr := None\<rparr>"

definition reset_range :: "nat \<Rightarrow> nat \<Rightarrow> big_whole \<Rightarrow> big_whole" where
  "reset_range from to this = bit_change_range from to reset_bit this"

definition reset :: "nat \<Rightarrow> big_whole \<Rightarrow> big_whole" where
  "reset i this = bit_change i reset_bit this"

definition set_range :: "nat \<Rightarrow> nat \<Rightarrow> big_whole \<Rightarrow> big_whole" where
  "set_range from to this = bit_change_range from to set_bit this"

definition set_bw :: "nat \<Rightarrow> big_whole \<Rightarrow> big_whole" where
  "set_bw i this = bit_change i set_bit this"

definition flip_range :: "nat \<Rightarrow> nat \<Rightarrow> big_whole \<Rightarrow> big_whole" where
  "flip_range from to this = bit_change_range from to flip_bit this"

definition flip :: "nat \<Rightarrow> big_whole \<Rightarrow> big_whole" where
  "flip i this = bit_change i flip_bit this"

text \<open>
  \<open>bits_assign\<close>. The result array \<open>new_t_ids\<close> is filled through the pointer
  \<open>new_t_ptr = &new_t_ids[0]\<close>, which the three loops advance; taking that address is a
  subscript of \<open>new_t_ids\<close> at 0 and is checked as such. The function returns the faults
  (of that subscript, then of the reconfiguration) and the receiver after the call.
\<close>

definition copy_through_ptr :: "index_type \<Rightarrow> index_type \<times> nat \<Rightarrow> index_type \<times> nat" where
  "copy_through_ptr src st =
     fold (\<lambda>i (arr, new_t_ptr). (arr[new_t_ptr := src ! i], new_t_ptr + 1)) [0..<length src] st"

definition bits_assign :: "nat \<Rightarrow> nat \<Rightarrow> big_whole \<Rightarrow> big_whole \<Rightarrow> fault list \<times> big_whole" where
  "bits_assign from to values this =
     (let (from, to) = (if from > to then (to, from) else (from, to));
          t_ids = to_bit_indices this;
          v_ids = to_bit_indices values;
          pre_t_ids = filter (\<lambda>x. x < from) t_ids;
          new_v_ids = map (\<lambda>x. x + from) (filter (\<lambda>x. x \<le> to - from) v_ids);
          post_t_ids = filter (\<lambda>x. x > to) t_ids;
          pre_s = length pre_t_ids;
          new_s = length new_v_ids;
          post_s = length post_t_ids;
          new_t_ids = replicate (pre_s + new_s + post_s) 0;
          faults = subscript_check new_t_ids 0;
          st = copy_through_ptr pre_t_ids (new_t_ids, 0);
          st = copy_through_ptr new_v_ids st;
          st = copy_through_ptr post_t_ids st
      in case reconfigure_indices (fst st) this of
           (faults', this') \<Rightarrow> (faults @ faults', this'))"

subsection \<open>Self-operator mutators and operators\<close>

definition not_self :: "big_whole \<Rightarrow> big_whole" where
  "not_self this = this\<lparr>x_ptr := (if any this then None else Some (replicate 1 1))\<rparr>"

text \<open>
  \<open>operator !\<close> takes its operand by reference to const, copies it into \<open>temp\<close> and
  negates the copy. The pair is the operand after the call and the returned value.
\<close>

definition operator_not :: "big_whole \<Rightarrow> big_whole \<times> big_whole" where
  "operator_not w = (let temp = big_whole_copy w; temp = not_self temp in (w, temp))"

subsection \<open>The specialization of \<open>std::numeric_limits\<close>\<close>

text \<open>
  A static member function of the specialization is either defined in the class body or only
  declared (``functions whose definitions aren't given here are never defined'').
\<close>

datatype 'a member_function = Defined 'a | Declared_Only

datatype float_denorm_style = denorm_indeterminate | denorm_absent | denorm_present

datatype float_round_style =
  round_indeterminate | round_toward_zero | round_to_nearest
  | round_toward_infinity | round_toward_neg_infinity

record numeric_limits =
  is_specialized :: bool
  min_fn :: "big_whole member_function"
  max_fn :: "big_whole member_function"
  digits :: int
  digits10 :: int
  is_signed :: bool
  is_integer :: bool
  is_exact :: bool
  radix :: int
  epsilon :: "big_whole member_function"
  round_error :: "big_whole member_function"
  min_exponent :: int
  min_exponent10 :: int
  max_exponent :: int
  max_exponent10 :: int
  has_infinity :: bool
  has_quiet_NaN :: bool
  has_signaling_NaN :: bool
  has_denorm :: float_denorm_style
  has_denorm_loss :: bool
  infinity :: "big_whole member_function"
  quiet_NaN :: "big_whole member_function"
  signaling_NaN :: "big_whole member_function"
  denorm_min :: "big_whole member_function"
  is_iec559 :: bool
  is_bounded :: bool
  is_modulo :: bool
  traps :: bool
  tinyness_before :: bool
  round_style :: float_round_style

definition numeric_limits_big_whole :: numeric_limits where
  "numeric_limits_big_whole =
     \<lparr>is_specialized = True,
      min_fn = Defined big_whole_default,
      max_fn = Declared_Only,
      digits = 0,
      digits10 = 0,
      is_signed = False,
      is_integer = True,
      is_exact = True,
      radix = 2,
      epsilon = Declared_Only,
      round_error = Declared_Only,
      min_exponent = 0,
      min_exponent10 = 0,
      max_exponent = 0,
      max_exponent10 = 0,
      has_infinity = False,
      has_quiet_NaN = False,
      has_signaling_NaN = False,
      has_denorm = denorm_absent,
      has_denorm_loss = False,
      infinity = Declared_Only,
      quiet_NaN = Declared_Only,
      signaling_NaN = Declared_Only,
      denorm_min = Declared_Only,
      is_iec559 = False,
      is_bounded = False,
      is_modulo = False,
      traps = False,
      tinyness_before = False,
      round_style = round_toward_zero\<rparr>"

text \<open>A call of the member function returns a value, and that value is zero.\<close>

definition returns_zero :: "big_whole member_function \<Rightarrow> bool" where
  "returns_zero f = (case f of Defined v \<Rightarrow> none v | Declared_Only \<Rightarrow> False)"

subsection \<open>Notions used in the properties\<close>

text \<open>The words behind the buffer pointer; a null pointer has none.\<close>

definition stored_words :: "big_whole \<Rightarrow> va_type" where
  "stored_words this = (case x_ptr this of None \<Rightarrow> [] | Some v \<Rightarrow> v)"

text \<open>Bit \<open>i\<close> of a word sequence: bit \<open>i mod 32\<close> of word \<open>i div 32\<close>, if that word exists.\<close>

definition wbit :: "va_type \<Rightarrow> nat \<Rightarrow> bool" where
  "wbit v i = (i div limits_digits < length v \<and> bit (v ! (i div limits_digits)) (i mod limits_digits))"

text \<open>The canonical form of the specification: no high-order all-zero word.\<close>

definition canonical :: "va_type \<Rightarrow> bool" where
  "canonical v = (v = [] \<or> last v \<noteq> 0)"

text \<open>
  A bit index after its passage through the \<open>int\<close> counter of \<open>to_bit_indices\<close>.
\<close>

definition wrapped_index :: "nat \<Rightarrow> nat" where
  "wrapped_index n = size_t_of_int (signed_take_bit 31 (int n))"

text \<open>The positions of the set bits of an object, in ascending order.\<close>

definition bit_positions :: "big_whole \<Rightarrow> nat list" where
  "bit_positions this =
     filter (wbit (stored_words this)) [0..<limits_digits * length (stored_words this)]"

text \<open>The indices of the set bits of word \<open>i\<close>, in ascending order.\<close>

definition word_indices :: "va_type \<Rightarrow> nat \<Rightarrow> nat list" where
  "word_indices v i = map (\<lambda>j. i * limits_digits + j) (filter (bit (v ! i)) [0..<limits_digits])"

text \<open>The valarray a buffer pointer refers to; the null pointer refers to no words.\<close>

definition pointee :: "va_type option \<Rightarrow> va_type" where
  "pointee v = (case v of None \<Rightarrow> [] | Some a \<Rightarrow> a)"

text \<open>
  The \<open>switch\<close> on the operation that both forms of \<open>bit_change\<close> apply to one word:
  \<open>(*v)[i] ^= m\<close>, \<open>(*v)[i] |= m\<close> or, if word \<open>i\<close> exists, \<open>(*v)[i] &= ~m\<close>.
\<close>

definition apply_mask :: "bit_operation \<Rightarrow> va_type option \<Rightarrow> nat \<Rightarrow> word_type \<Rightarrow> va_type option" where
  "apply_mask op v i m =
     (case op of
        flip_bit \<Rightarrow> va_modify v i (\<lambda>w. w XOR m)
      | set_bit \<Rightarrow> va_modify v i (\<lambda>w. w OR m)
      | reset_bit \<Rightarrow> if i < va_size v then va_modify v i (\<lambda>w. w AND NOT m) else v)"

text \<open>What a bit becomes under each of the three operations.\<close>

definition bit_after :: "bit_operation \<Rightarrow> bool \<Rightarrow> bool" where
  "bit_after op old = (case op of reset_bit \<Rightarrow> False | set_bit \<Rightarrow> True | flip_bit \<Rightarrow> \<not> old)"

text \<open>Observable equality: the same \<open>test\<close> at every index, the same \<open>length\<close> and \<open>count\<close>.\<close>

definition observably_equal :: "big_whole \<Rightarrow> big_whole \<Rightarrow> bool" where
  "observably_equal a b = ((\<forall>i. test a i = test b i) \<and> length_bw a = length_bw b \<and> count a = count b)"

section \<open>Words, bits and the length\<close>

lemma and_single_bit: "(w AND push_bit j 1 \<noteq> 0) = bit w j" for w :: word_type
  by (simp add: bit_iff_and_push_bit_not_eq_0)

lemma single_bit_and: "(push_bit j 1 AND w \<noteq> 0) = bit w j" for w :: word_type
  by (simp add: bit_iff_and_push_bit_not_eq_0 and.commute)

lemma test_wbit: "test this i = wbit (stored_words this) i"
  by (auto simp: test_def wbit_def stored_words_def Let_def and_exp_eq_0_iff_not_bit split: option.split)

lemma wlength_loop_le: "wlength_loop v n \<le> n"
  by (induction n) auto

lemma wlength_loop_zero: "wlength_loop v n = 0 \<longleftrightarrow> (\<forall>k<n. v ! k = 0)"
  by (induction n) (auto simp: less_Suc_eq)

lemma wlength_loop_top: "wlength_loop v n = Suc m \<Longrightarrow> v ! m \<noteq> 0 \<and> m < n \<and> (\<forall>k. m < k \<and> k < n \<longrightarrow> v ! k = 0)"
  by (induction n) (auto simp: less_Suc_eq split: if_splits)

lemma blength_loop_zero: "blength_loop w n = 0 \<longleftrightarrow> (\<forall>j<n. \<not> bit w j)"
  by (induction n) (auto simp: less_Suc_eq and_exp_eq_0_iff_not_bit)

lemma blength_loop_top: "blength_loop w n = Suc m \<Longrightarrow> bit w m \<and> m < n \<and> (\<forall>k. m < k \<and> k < n \<longrightarrow> \<not> bit w k)"
  by (induction n) (auto simp: less_Suc_eq and_exp_eq_0_iff_not_bit split: if_splits)

lemma word_nonzero_bit: "w \<noteq> 0 \<longleftrightarrow> (\<exists>j<limits_digits. bit w j)" for w :: word_type
proof
  assume "w \<noteq> 0"
  then obtain j where "bit w j" by (auto simp: bit_eq_iff)
  moreover from this have "j < 32" using bit_imp_le_length [of w j] by simp
  ultimately show "\<exists>j<limits_digits. bit w j" by blast
next
  assume "\<exists>j<limits_digits. bit w j"
  then show "w \<noteq> 0" by auto
qed

lemma va_max_Max: "xs \<noteq> [] \<Longrightarrow> va_max xs = Max (set xs)"
  by (cases xs) (simp_all add: va_max_def Max.set_eq_fold [symmetric])

lemma va_max_nonzero: "xs \<noteq> [] \<Longrightarrow> va_max xs \<noteq> 0 \<longleftrightarrow> (\<exists>k<length xs. xs ! k \<noteq> 0)" for xs :: va_type
proof -
  assume ne: "xs \<noteq> []"
  have "Max (set xs) \<noteq> 0 \<longleftrightarrow> (\<exists>w\<in>set xs. w \<noteq> 0)"
  proof
    assume "Max (set xs) \<noteq> 0"
    moreover have "Max (set xs) \<in> set xs" using ne by (simp add: Max_in)
    ultimately show "\<exists>w\<in>set xs. w \<noteq> 0" by blast
  next
    assume "\<exists>w\<in>set xs. w \<noteq> 0"
    then obtain w where w: "w \<in> set xs" "w \<noteq> 0" by blast
    then have "w \<le> Max (set xs)" by simp
    with w show "Max (set xs) \<noteq> 0" by (auto simp: word_le_nat_alt unat_eq_zero)
  qed
  moreover have "(\<exists>w\<in>set xs. w \<noteq> 0) \<longleftrightarrow> (\<exists>k<length xs. xs ! k \<noteq> 0)"
    by (metis in_set_conv_nth)
  ultimately show ?thesis using ne by (simp add: va_max_Max)
qed

lemma any_words: "any this \<longleftrightarrow> (\<exists>k<length (stored_words this). stored_words this ! k \<noteq> 0)"
proof (cases "x_ptr this")
  case None
  then show ?thesis by (simp add: any_def stored_words_def)
next
  case (Some a)
  show ?thesis
  proof (cases "a = []")
    case True
    with Some show ?thesis by (simp add: any_def stored_words_def)
  next
    case False
    with Some show ?thesis by (simp add: any_def stored_words_def va_max_nonzero)
  qed
qed

lemma wbit_split: "wbit v (k * limits_digits + j) \<longleftrightarrow> k < length v \<and> bit (v ! k) j" if "j < limits_digits"
  using that by (simp add: wbit_def)

lemma any_test: "any this \<longleftrightarrow> (\<exists>i. test this i)"
proof
  assume "any this"
  then obtain k where k: "k < length (stored_words this)" "stored_words this ! k \<noteq> 0"
    by (auto simp: any_words)
  then obtain j where j: "j < limits_digits" "bit (stored_words this ! k) j"
    using word_nonzero_bit by blast
  then have "test this (k * limits_digits + j)" using k by (simp add: test_wbit wbit_split)
  then show "\<exists>i. test this i" ..
next
  assume "\<exists>i. test this i"
  then obtain i where "wbit (stored_words this) i" by (auto simp: test_wbit)
  then show "any this" unfolding any_words wbit_def by auto
qed

lemma blength_pos: "w \<noteq> 0 \<Longrightarrow> blength w \<noteq> 0"
  by (simp add: blength_def blength_loop_zero word_nonzero_bit)

lemma length_bw_words:
  "length_bw this =
     (let v = stored_words this in
      if wlength v \<noteq> 0 then blength (v ! (wlength v - 1)) + (wlength v - 1) * limits_digits else 0)"
  by (simp add: length_bw_def stored_words_def wlength_def Let_def split: option.split)

lemma length_bw_zero_iff: "length_bw this = 0 \<longleftrightarrow> \<not> any this"
proof (cases "wlength (stored_words this)")
  case 0
  then have "length_bw this = 0" by (simp add: length_bw_words)
  moreover from 0 have "\<not> any this"
    by (simp add: any_words wlength_def wlength_loop_zero)
  ultimately show ?thesis by simp
next
  case (Suc m)
  then have m: "stored_words this ! m \<noteq> 0" "m < length (stored_words this)"
    using wlength_loop_top [of "stored_words this" "length (stored_words this)" m]
    by (simp_all add: wlength_def)
  then have "any this" by (auto simp: any_words)
  moreover have "length_bw this \<noteq> 0"
    using Suc m blength_pos by (simp add: length_bw_words)
  ultimately show ?thesis by simp
qed

lemma length_bw_top:
  assumes "length_bw this = L" "0 < L"
  shows "test this (L - 1)" and "\<forall>i\<ge>L. \<not> test this i"
proof -
  let ?v = "stored_words this"
  from assms obtain m where m: "wlength ?v = Suc m"
    by (cases "wlength ?v") (auto simp: length_bw_words)
  then have top: "?v ! m \<noteq> 0" "m < length ?v" "\<forall>k. m < k \<and> k < length ?v \<longrightarrow> ?v ! k = 0"
    using wlength_loop_top [of ?v "length ?v" m] by (simp_all add: wlength_def)
  from top(1) obtain b where b: "blength (?v ! m) = Suc b"
    using blength_pos [of "?v ! m"] by (cases "blength (?v ! m)") auto
  then have bt: "bit (?v ! m) b" "b < limits_digits" "\<forall>k. b < k \<and> k < limits_digits \<longrightarrow> \<not> bit (?v ! m) k"
    using blength_loop_top [of "?v ! m" limits_digits b] by (simp_all add: blength_def)
  have L: "L = Suc b + m * limits_digits"
    using assms(1) m b by (simp add: length_bw_words)
  have "L - 1 = m * limits_digits + b" using L by simp
  then show "test this (L - 1)"
    using bt top by (simp add: test_wbit wbit_split)
  show "\<forall>i\<ge>L. \<not> test this i"
  proof (intro allI impI notI)
    fix i assume i: "L \<le> i" and t: "test this i"
    from t have w: "i div limits_digits < length ?v" "bit (?v ! (i div limits_digits)) (i mod limits_digits)"
      by (simp_all add: test_wbit wbit_def)
    from i L have ge: "m \<le> i div limits_digits" by simp
    show False
    proof (cases "i div limits_digits = m")
      case True
      with i L have "b < i mod limits_digits"
        using div_mult_mod_eq [of i limits_digits] by linarith
      with bt(3) w(2) True show False by simp
    next
      case False
      with ge have "m < i div limits_digits" by simp
      with top(3) w(1) have "?v ! (i div limits_digits) = 0" by simp
      with w(2) show False by simp
    qed
  qed
qed

section \<open>The truncating conversion\<close>

lemma to_uintmax_loop_bit:
  "k < uintmax_digits \<Longrightarrow>
   bit (to_uintmax_loop v n temp) k =
     (if k < limits_digits * n then bit (v ! (k div limits_digits)) (k mod limits_digits)
      else bit temp (k - limits_digits * n))"
proof (induction n arbitrary: temp)
  case 0
  then show ?case by simp
next
  case (Suc n)
  show ?case
  proof (cases "k < limits_digits * n")
    case True
    with Suc show ?thesis by simp
  next
    case False
    then have ge: "limits_digits * n \<le> k" by simp
    show ?thesis
    proof (cases "k < limits_digits * Suc n")
      case True
      with ge have "k div limits_digits = n" "k mod limits_digits = k - limits_digits * n"
        "k - limits_digits * n < limits_digits"
        by (auto simp: div_nat_eqI modulo_nat_def mult.commute)
      with Suc True False show ?thesis
        by (simp add: bit_or_iff bit_push_bit_iff bit_ucast_iff)
    next
      case F2: False
      then have "limits_digits \<le> k - limits_digits * n" "k - limits_digits * n - limits_digits = k - limits_digits * Suc n"
        by simp_all
      moreover have "\<not> bit (v ! n) (k - limits_digits * n)"
        using \<open>limits_digits \<le> k - limits_digits * n\<close> bit_imp_le_length [of "v ! n" "k - limits_digits * n"]
        by auto
      moreover have "k - limits_digits * n < uintmax_digits"
        using Suc.prems by simp
      ultimately show ?thesis using Suc F2 False
        by (simp add: bit_or_iff bit_push_bit_iff bit_ucast_iff)
    qed
  qed
qed

lemma to_uintmax_bit: "k < uintmax_digits \<Longrightarrow> bit (to_uintmax this) k = test this k"
proof (cases "x_ptr this")
  case None
  then show ?thesis by (simp add: to_uintmax_def test_def)
next
  case (Some v)
  assume k: "k < uintmax_digits"
  have "k < limits_digits * length v \<longleftrightarrow> k div limits_digits < length v"
    by (simp add: less_mult_imp_div_less div_less_iff_less_mult mult.commute)
  with Some k show ?thesis
    by (simp add: to_uintmax_def to_uintmax_loop_bit test_wbit wbit_def stored_words_def)
qed

lemma to_uintmax_cong:
  assumes "\<forall>i<uintmax_digits. test a i = test b i"
  shows "to_uintmax a = to_uintmax b"
proof (rule bit_word_eqI)
  fix k assume "k < LENGTH(64)"
  then have "k < uintmax_digits" by simp
  with assms show "bit (to_uintmax a) k = bit (to_uintmax b) k"
    by (simp add: to_uintmax_bit)
qed

section \<open>The index view\<close>

lemma signed_take_bit_incr:
  "signed_take_bit 31 (signed_take_bit 31 a + 1) = signed_take_bit 31 (a + 1)" for a :: int
proof -
  have "signed_take_bit 31 (signed_take_bit 31 a + signed_take_bit 31 1) = signed_take_bit 31 (a + 1)"
    by (rule signed_take_bit_add)
  then show ?thesis by simp
qed

lemma jj_after: "(int_incr ^^ j) (int_of_size_t ii) = signed_take_bit 31 (int (ii + j))"
proof (induction j)
  case 0
  then show ?case by (simp add: int_of_size_t_def)
next
  case (Suc j)
  have "(int_incr ^^ Suc j) (int_of_size_t ii) = int_incr ((int_incr ^^ j) (int_of_size_t ii))"
    by simp
  also have "\<dots> = signed_take_bit 31 (signed_take_bit 31 (int (ii + j)) + 1)"
    by (simp only: Suc int_incr_def)
  also have "\<dots> = signed_take_bit 31 (int (ii + j) + 1)"
    by (rule signed_take_bit_incr)
  also have "int (ii + j) + 1 = int (ii + Suc j)" by simp
  finally show ?case .
qed

lemma size_t_of_jj: "size_t_of_int ((int_incr ^^ j) (int_of_size_t ii)) = wrapped_index (ii + j)"
  by (simp only: jj_after wrapped_index_def)

lemma wrapped_index_small: "n < 2 ^ 31 \<Longrightarrow> wrapped_index n = n"
proof -
  assume n: "n < 2 ^ 31"
  then have "int n < 2 ^ 31" by (metis of_nat_less_iff of_nat_numeral of_nat_power)
  then have "signed_take_bit 31 (int n) = int n"
    by (intro signed_take_bit_int_eq_self) simp_all
  moreover have "int n < 2 ^ 64" using \<open>int n < 2 ^ 31\<close> by simp
  ultimately show ?thesis by (simp add: wrapped_index_def size_t_of_int_def)
qed

lemma to_bit_indices_inner_fold:
  "u + length js \<le> length t \<Longrightarrow>
   snd (fold (to_bit_indices_inner w ii) js (t, u)) = u + length (filter (bit w) js) \<and>
   length (fst (fold (to_bit_indices_inner w ii) js (t, u))) = length t \<and>
   take (u + length (filter (bit w) js)) (fst (fold (to_bit_indices_inner w ii) js (t, u))) =
     take u t @ map (\<lambda>j. wrapped_index (ii + j)) (filter (bit w) js)"
proof (induction js arbitrary: t u)
  case Nil
  then show ?case by simp
next
  case (Cons j js)
  show ?case
  proof (cases "bit w j")
    case True
    then have step: "to_bit_indices_inner w ii j (t, u) = (t[u := wrapped_index (ii + j)], Suc u)"
      by (simp add: to_bit_indices_inner_def single_bit_and [simplified] size_t_of_jj)
    from Cons.prems have u: "u < length t"
      and "Suc u + length js \<le> length (t[u := wrapped_index (ii + j)])"
      by simp_all
    from Cons.IH [OF this(2)] u True show ?thesis
      by (simp add: step take_Suc_conv_app_nth)
  next
    case False
    then have step: "to_bit_indices_inner w ii j (t, u) = (t, u)"
      by (simp add: to_bit_indices_inner_def single_bit_and [simplified])
    from Cons.prems have "u + length js \<le> length t" by simp
    from Cons.IH [OF this] False show ?thesis
      by (simp add: step)
  qed
qed

lemma length_word_indices: "length (word_indices v i) \<le> limits_digits"
  using length_filter_le [of "bit (v ! i)" "[0..<limits_digits]"] by (simp add: word_indices_def)

lemma to_bit_indices_outer_step:
  assumes "u + limits_digits \<le> length t"
  shows "snd (to_bit_indices_outer v i (t, u)) = u + length (word_indices v i)"
    and "length (fst (to_bit_indices_outer v i (t, u))) = length t"
    and "take (u + length (word_indices v i)) (fst (to_bit_indices_outer v i (t, u))) =
           take u t @ map wrapped_index (word_indices v i)"
  using to_bit_indices_inner_fold [of u "[0..<limits_digits]" t "v ! i" "i * limits_digits"] assms
  by (simp_all add: to_bit_indices_outer_def word_indices_def comp_def)

lemma to_bit_indices_outer_fold:
  "u + limits_digits * length ks \<le> length t \<Longrightarrow>
   snd (fold (to_bit_indices_outer v) ks (t, u)) = u + length (concat (map (word_indices v) ks)) \<and>
   length (fst (fold (to_bit_indices_outer v) ks (t, u))) = length t \<and>
   take (u + length (concat (map (word_indices v) ks))) (fst (fold (to_bit_indices_outer v) ks (t, u))) =
     take u t @ map wrapped_index (concat (map (word_indices v) ks))"
proof (induction ks arbitrary: t u)
  case Nil
  then show ?case by simp
next
  case (Cons k ks)
  obtain t1 u1 where st: "to_bit_indices_outer v k (t, u) = (t1, u1)"
    by (cases "to_bit_indices_outer v k (t, u)")
  from Cons.prems have b: "u + limits_digits \<le> length t" by simp
  from to_bit_indices_outer_step [OF b, of v k] st
  have u1: "u1 = u + length (word_indices v k)" and t1: "length t1 = length t"
    and tk: "take u1 t1 = take u t @ map wrapped_index (word_indices v k)"
    by simp_all
  from Cons.prems u1 t1 length_word_indices [of v k]
  have "u1 + limits_digits * length ks \<le> length t1" by simp
  from Cons.IH [OF this] t1 show ?case
    by (simp add: st u1 [symmetric] tk add.assoc [symmetric])
qed

lemma upt_block: "[limits_digits * s..<limits_digits * Suc s] = map (\<lambda>j. s * limits_digits + j) [0..<limits_digits]"
proof -
  have "map (\<lambda>j. j + s * limits_digits) [0..<limits_digits] = [s * limits_digits..<limits_digits + s * limits_digits]"
    by (rule map_add_upt)
  then show ?thesis by (simp add: add.commute mult.commute)
qed

lemma concat_word_indices:
  "s \<le> length v \<Longrightarrow> concat (map (word_indices v) [0..<s]) = filter (wbit v) [0..<limits_digits * s]"
proof (induction s)
  case 0
  then show ?case by simp
next
  case (Suc s)
  then have s: "s < length v" by simp
  have blocks: "[0..<limits_digits * Suc s] = [0..<limits_digits * s] @ [limits_digits * s..<limits_digits * Suc s]"
    using upt_add_eq_append [of 0 "limits_digits * s" limits_digits] by (simp add: add.commute)
  have "filter (wbit v) [limits_digits * s..<limits_digits * Suc s] = word_indices v s"
    unfolding upt_block word_indices_def filter_map
    by (rule arg_cong [where f = "map _"], rule filter_cong) (use s in \<open>simp_all add: wbit_split\<close>)
  with Suc s show ?case
    by (simp add: blocks del: mult_Suc_right)
qed

lemma to_bit_indices_positions: "to_bit_indices this = map wrapped_index (bit_positions this)"
proof (cases "x_ptr this")
  case None
  then show ?thesis by (simp add: to_bit_indices_def bit_positions_def stored_words_def)
next
  case (Some v)
  show ?thesis
  proof (cases "v = []")
    case True
    with Some show ?thesis by (simp add: to_bit_indices_def bit_positions_def stored_words_def)
  next
    case False
    let ?t = "replicate (length v * limits_digits) (0::nat)"
    obtain t' u' where st: "fold (to_bit_indices_outer v) [0..<length v] (?t, 0) = (t', u')"
      by (cases "fold (to_bit_indices_outer v) [0..<length v] (?t, 0)")
    have "0 + limits_digits * length [0..<length v] \<le> length ?t" by simp
    from to_bit_indices_outer_fold [OF this, of v] st
    have "u' = length (concat (map (word_indices v) [0..<length v]))"
      and "take u' t' = map wrapped_index (concat (map (word_indices v) [0..<length v]))"
      by simp_all
    then have "take u' t' = map wrapped_index (filter (wbit v) [0..<limits_digits * length v])"
      by (simp add: concat_word_indices)
    with Some False st show ?thesis
      by (auto simp: to_bit_indices_def bit_positions_def stored_words_def)
  qed
qed

lemma wbit_bound: "wbit v i \<Longrightarrow> i < limits_digits * length v"
  by (simp add: wbit_def less_mult_imp_div_less div_less_iff_less_mult mult.commute)

lemma set_bit_positions: "set (bit_positions this) = {i. test this i}"
  using wbit_bound by (auto simp: bit_positions_def test_wbit)

lemma sorted_bit_positions: "sorted (bit_positions this)"
  by (simp add: bit_positions_def sorted_wrt_filter)

lemma distinct_bit_positions: "distinct (bit_positions this)"
  by (simp add: bit_positions_def)

lemma bit_positions_cong:
  assumes "\<forall>i. test a i = test b i"
  shows "bit_positions a = bit_positions b"
proof (rule sorted_distinct_set_unique)
  show "set (bit_positions a) = set (bit_positions b)"
    using assms by (simp add: set_bit_positions)
qed (simp_all add: sorted_bit_positions distinct_bit_positions)

lemma to_bit_indices_cong:
  "\<forall>i. test a i = test b i \<Longrightarrow> to_bit_indices a = to_bit_indices b"
  unfolding to_bit_indices_positions by (rule arg_cong [OF bit_positions_cong])

lemma length_to_bit_indices: "length (to_bit_indices this) = length (bit_positions this)"
  by (simp add: to_bit_indices_positions)

lemma test_below_length: "test this i \<Longrightarrow> i < length_bw this"
proof (rule ccontr)
  assume t: "test this i" and "\<not> i < length_bw this"
  then have le: "length_bw this \<le> i" by simp
  show False
  proof (cases "length_bw this = 0")
    case True
    with t show False by (auto simp: length_bw_zero_iff any_test)
  next
    case False
    then show False using length_bw_top(2) [of this "length_bw this"] le t by simp
  qed
qed

lemma to_bit_indices_small:
  assumes "length_bw this \<le> 2 ^ 31"
  shows "to_bit_indices this = bit_positions this"
proof -
  have "wrapped_index i = i" if "i \<in> set (bit_positions this)" for i
  proof -
    from that have "i < length_bw this" by (simp add: set_bit_positions test_below_length)
    with assms have "i < 2 ^ 31" by simp
    then show ?thesis by (rule wrapped_index_small)
  qed
  then have "map wrapped_index (bit_positions this) = map (\<lambda>i. i) (bit_positions this)"
    by (intro map_cong) simp_all
  then show ?thesis by (simp add: to_bit_indices_positions)
qed

lemma set_to_bit_indices:
  "length_bw this \<le> 2 ^ 31 \<Longrightarrow> set (to_bit_indices this) = {i. test this i}"
  by (simp add: to_bit_indices_small set_bit_positions)

section \<open>Population count\<close>

lemma filter_bit_upt_Suc:
  "length (filter (bit w) [0..<Suc n]) =
     (if bit w 0 then 1 else 0) + length (filter (bit (drop_bit 1 w)) [0..<n])" for w :: word_type
proof -
  have "[0..<Suc n] = 0 # map Suc [0..<n]"
    by (simp add: upt_conv_Cons map_Suc_upt del: upt_Suc)
  moreover have "filter (bit w) (map Suc [0..<n]) = map Suc (filter (bit (drop_bit 1 w)) [0..<n])"
    by (simp add: filter_map comp_def bit_drop_bit_eq)
  ultimately show ?thesis by simp
qed

lemma count_set_bits_loop_eq:
  "count_set_bits_loop i w c = c + of_nat (length (filter (bit w) [0..<limits_digits - i]))"
proof (induction i w c rule: count_set_bits_loop.induct)
  case (1 i w c)
  show ?case
  proof (cases "w \<noteq> 0 \<and> i < limits_digits")
    case True
    then have "limits_digits - i = Suc (limits_digits - (i + 1))" by linarith
    then have "length (filter (bit w) [0..<limits_digits - i]) =
        (if bit w 0 then 1 else 0) + length (filter (bit (drop_bit 1 w)) [0..<limits_digits - (i + 1)])"
      using filter_bit_upt_Suc [of w "limits_digits - (i + 1)"] by simp
    moreover have "(0 \<noteq> w AND 1) = bit w 0"
      using bit_iff_and_push_bit_not_eq_0 [of w 0] by auto
    ultimately show ?thesis
      using True "1.IH" [OF True] by (subst count_set_bits_loop.simps) simp
  next
    case False
    then have "filter (bit w) [0..<limits_digits - i] = []" by auto
    moreover from False have "count_set_bits_loop i w c = c"
      by (subst count_set_bits_loop.simps) (simp only: if_False)
    ultimately show ?thesis by simp
  qed
qed

lemma count_set_bits_for_word_eq:
  "count_set_bits_for_word (v ! i) = of_nat (length (word_indices v i))"
  unfolding count_set_bits_for_word_def count_set_bits_loop_eq word_indices_def by simp

lemma sum_count_set_bits:
  "sum_list (map (\<lambda>i. count_set_bits_for_word (v ! i)) ks) =
     of_nat (length (concat (map (word_indices v) ks)))"
  by (induction ks) (simp_all add: count_set_bits_for_word_eq)

lemma count_indices: "count this = unat (of_nat (length (to_bit_indices this)) :: word_type)"
proof (cases "x_ptr this")
  case None
  then show ?thesis by (simp add: count_def to_bit_indices_def)
next
  case (Some v)
  have "map count_set_bits_for_word v = map (\<lambda>i. count_set_bits_for_word (v ! i)) [0..<length v]"
    by (rule nth_equalityI) simp_all
  then have "sum_list (map count_set_bits_for_word v) = of_nat (length (filter (wbit v) [0..<limits_digits * length v]))"
    by (simp only: sum_count_set_bits concat_word_indices [OF order_refl])
  with Some show ?thesis
    by (simp add: count_def length_to_bit_indices bit_positions_def stored_words_def)
qed

section \<open>Values with the same bits answer every query alike\<close>

lemma length_bw_le:
  assumes "\<forall>i. test a i \<longrightarrow> test b i"
  shows "length_bw a \<le> length_bw b"
proof (cases "length_bw a")
  case 0
  then show ?thesis by simp
next
  case (Suc l)
  then have "test a l" using length_bw_top(1) [of a "Suc l"] by simp
  with assms have "test b l" by simp
  have "\<not> length_bw b \<le> l"
  proof
    assume le: "length_bw b \<le> l"
    show False
    proof (cases "length_bw b = 0")
      case True
      then show False using \<open>test b l\<close> by (auto simp: length_bw_zero_iff any_test)
    next
      case False
      then show False
        using length_bw_top(2) [of b "length_bw b"] le \<open>test b l\<close> by simp
    qed
  qed
  with Suc show ?thesis by simp
qed

lemma length_bw_cong: "\<forall>i. test a i = test b i \<Longrightarrow> length_bw a = length_bw b"
  by (rule order_antisym) (simp_all add: length_bw_le)

lemma reads_cong:
  assumes "\<forall>i. test a i = test b i"
  shows "length_bw a = length_bw b" "count a = count b" "any a = any b" "none a = none b"
    "to_bit_indices a = to_bit_indices b" "to_bit_vector a = to_bit_vector b"
    "to_uintmax a = to_uintmax b"
proof -
  show "length_bw a = length_bw b" using assms by (rule length_bw_cong)
  show i: "to_bit_indices a = to_bit_indices b" using assms by (rule to_bit_indices_cong)
  then show "count a = count b" by (simp add: count_indices)
  show "any a = any b" using assms by (simp add: any_test)
  then show "none a = none b" by (simp add: none_def)
  from i show "to_bit_vector a = to_bit_vector b" by (simp add: to_bit_vector_def)
  show "to_uintmax a = to_uintmax b" using assms by (simp add: to_uintmax_cong)
qed

lemma wbit_append_zeros: "wbit (v @ replicate n 0) i = wbit v i"
  by (auto simp: wbit_def nth_append)

section \<open>Construction from a mask and from an index list\<close>

lemma index_eq_div_mod: "i = j \<longleftrightarrow> i div limits_digits = j div limits_digits \<and> i mod limits_digits = j mod limits_digits" for i j :: nat
  by (metis div_mult_mod_eq)

lemma wbit_or_single:
  assumes "j div limits_digits < length temp"
  shows "wbit (temp[j div limits_digits := temp ! (j div limits_digits) OR push_bit (j mod limits_digits) 1]) i
           = (wbit temp i \<or> i = j)"
proof (cases "i div limits_digits = j div limits_digits")
  case True
  then have "i = j \<longleftrightarrow> i mod limits_digits = j mod limits_digits"
    using index_eq_div_mod [of i j] by simp
  with True assms show ?thesis
    by (auto simp: wbit_def bit_or_iff bit_exp_iff)
next
  case False
  then have "i \<noteq> j" by auto
  with False show ?thesis by (simp add: wbit_def)
qed

lemma mask_fold:
  "\<forall>j\<in>set js. j div limits_digits < length temp \<Longrightarrow>
   length (fold (\<lambda>i temp. if b ! i then
             (let wi = i div limits_digits; wj = i mod limits_digits
              in temp[wi := temp ! wi OR push_bit wj 1]) else temp) js temp) = length temp \<and>
   (\<forall>i. wbit (fold (\<lambda>i temp. if b ! i then
             (let wi = i div limits_digits; wj = i mod limits_digits
              in temp[wi := temp ! wi OR push_bit wj 1]) else temp) js temp) i
        = (wbit temp i \<or> (i \<in> set js \<and> b ! i)))"
proof (induction js arbitrary: temp)
  case Nil
  then show ?case by simp
next
  case (Cons j js)
  let ?t = "if b ! j then temp[j div limits_digits := temp ! (j div limits_digits) OR push_bit (j mod limits_digits) 1] else temp"
  have len: "length ?t = length temp" by simp
  with Cons.prems have "\<forall>k\<in>set js. k div limits_digits < length ?t" by simp
  from Cons.IH [OF this] Cons.prems show ?case
    using wbit_or_single [of j temp] by (auto simp: Let_def simp del: push_bit_of_1)
qed

lemma div_less_words_for_bits: "j < bs \<Longrightarrow> j div limits_digits < words_for_bits bs"
proof (cases "bs mod limits_digits = 0")
  case True
  assume "j < bs"
  moreover from True have "bs = bs div limits_digits * limits_digits"
    using div_mult_mod_eq [of bs limits_digits] by linarith
  ultimately have "j < bs div limits_digits * limits_digits" by simp
  then have "j div limits_digits < bs div limits_digits"
    by (simp add: div_less_iff_less_mult)
  then show ?thesis by (simp add: words_for_bits_def)
next
  case False
  assume "j < bs"
  then have "j div limits_digits \<le> bs div limits_digits" by (simp add: div_le_mono)
  with False show ?thesis by (simp add: words_for_bits_def)
qed

lemma wbit_zeros: "\<not> wbit (replicate n 0) i"
  by (simp add: wbit_def)

lemma length_bit_vector_to_va: "length (bit_vector_to_va b) = words_for_bits (length b)"
proof (cases "b = []")
  case True
  then show ?thesis by (simp add: bit_vector_to_va_def words_for_bits_def)
next
  case False
  have "\<forall>j\<in>set [0..<length b]. j div limits_digits < length (replicate (words_for_bits (length b)) (0::word_type))"
    by (simp add: div_less_words_for_bits)
  from mask_fold [OF this, of b] False show ?thesis
    by (simp add: bit_vector_to_va_def Let_def)
qed

lemma wbit_bit_vector_to_va: "wbit (bit_vector_to_va b) i = (i < length b \<and> b ! i)"
proof (cases "b = []")
  case True
  then show ?thesis by (simp add: bit_vector_to_va_def wbit_def)
next
  case False
  have "\<forall>j\<in>set [0..<length b]. j div limits_digits < length (replicate (words_for_bits (length b)) (0::word_type))"
    by (simp add: div_less_words_for_bits)
  from mask_fold [OF this, of b] False show ?thesis
    by (simp add: bit_vector_to_va_def Let_def wbit_zeros)
qed

lemma test_big_whole_of_mask: "test (big_whole_of_mask b) i = (i < length b \<and> b ! i)"
  by (simp add: test_wbit stored_words_def big_whole_of_mask_def wbit_bit_vector_to_va)

lemma indirect_assign_nth:
  "length (indirect_assign t ks val) = length t \<and>
   (\<forall>k<length t. indirect_assign t ks val ! k = (if k \<in> set ks then val else t ! k))"
  unfolding indirect_assign_def
proof (induction ks arbitrary: t)
  case Nil
  then show ?case by simp
next
  case (Cons a ks)
  from Cons.IH [of "t[a := val]"] show ?case
    by (auto simp: nth_list_update)
qed

lemma va_max_ge: "k \<in> set ks \<Longrightarrow> k \<le> va_max ks" for ks :: "nat list"
  by (cases "ks = []") (simp_all add: va_max_Max)

lemma index_mask_bound:
  assumes "\<forall>k\<in>set ks. k < n"
  shows "(i < length (indirect_assign (replicate n False) ks True) \<and>
          indirect_assign (replicate n False) ks True ! i) = (i \<in> set ks)"
proof (cases "i < n")
  case True
  with indirect_assign_nth [of "replicate n False" ks True] show ?thesis by simp
next
  case False
  with assms have "i \<notin> set ks" by auto
  with False indirect_assign_nth [of "replicate n False" ks True] show ?thesis by simp
qed

lemma indirect_check_empty: "\<forall>k\<in>set ks. k < length t \<Longrightarrow> indirect_check t ks = []"
  by (induction ks) (simp_all add: indirect_check_def subscript_check_def)

lemma va_max_in: "ks \<noteq> [] \<Longrightarrow> va_max ks \<in> set ks" for ks :: "nat list"
  by (simp add: va_max_Max)

lemma mask_size:
  assumes "ks \<noteq> []" "\<forall>k\<in>set ks. k < size_t_range - 1"
  shows "(va_max ks + 1) mod size_t_range = va_max ks + 1"
proof -
  from assms va_max_in [of ks] have "va_max ks < size_t_range - 1" by blast
  then have "va_max ks + 1 < size_t_range" by linarith
  then show ?thesis by (rule mod_less)
qed

lemma index_mask:
  assumes "ks \<noteq> []" "\<forall>k\<in>set ks. k < size_t_range - 1"
  shows "(i < length (indirect_assign (replicate ((va_max ks + 1) mod size_t_range) False) ks True) \<and>
          indirect_assign (replicate ((va_max ks + 1) mod size_t_range) False) ks True ! i) = (i \<in> set ks)"
    and "indirect_check (replicate ((va_max ks + 1) mod size_t_range) False) ks = []"
proof -
  have b: "\<forall>k\<in>set ks. k < va_max ks + 1" by (simp add: va_max_ge less_Suc_eq_le)
  show "(i < length (indirect_assign (replicate ((va_max ks + 1) mod size_t_range) False) ks True) \<and>
          indirect_assign (replicate ((va_max ks + 1) mod size_t_range) False) ks True ! i) = (i \<in> set ks)"
    unfolding mask_size [OF assms] using b by (rule index_mask_bound)
  show "indirect_check (replicate ((va_max ks + 1) mod size_t_range) False) ks = []"
    unfolding mask_size [OF assms] using b by (intro indirect_check_empty) simp
qed

lemma bit_indices_to_va_ok:
  assumes "\<forall>k\<in>set ks. k < size_t_range - 1"
  shows "fst (bit_indices_to_va ks) = [] \<and> wbit (snd (bit_indices_to_va ks)) i = (i \<in> set ks)"
proof (cases "ks = []")
  case True
  then show ?thesis
    by (simp add: bit_indices_to_va_def wbit_bit_vector_to_va)
next
  case False
  note m = index_mask [OF False assms]
  from False show ?thesis
    using m by (simp add: bit_indices_to_va_def Let_def wbit_bit_vector_to_va)
qed

lemma big_whole_of_indices_ok:
  assumes "\<forall>k\<in>set ks. k < size_t_range - 1"
  shows "fst (big_whole_of_indices ks) = []" and "test (snd (big_whole_of_indices ks)) i = (i \<in> set ks)"
  using bit_indices_to_va_ok [OF assms, of i]
  by (cases "bit_indices_to_va ks"; simp add: big_whole_of_indices_def test_wbit stored_words_def)+

lemma bit_positions_small:
  "length_bw this \<le> 2 ^ 31 \<Longrightarrow> \<forall>k\<in>set (bit_positions this). k < size_t_range - 1"
proof
  fix k assume "length_bw this \<le> 2 ^ 31" "k \<in> set (bit_positions this)"
  then have "k < 2 ^ 31" using test_below_length [of this k] by (simp add: set_bit_positions)
  then show "k < size_t_range - 1" by simp
qed

lemma to_bit_vector_ok:
  assumes "length_bw this \<le> 2 ^ 31"
  shows "fst (to_bit_vector this) = [] \<and>
    ((i < length (snd (to_bit_vector this)) \<and> snd (to_bit_vector this) ! i) = test this i)"
proof (cases "bit_positions this = []")
  case True
  then have "\<not> test this i" using set_bit_positions [of this] by auto
  with True show ?thesis
    by (simp add: to_bit_vector_def to_bit_indices_small [OF assms])
next
  case False
  note m = index_mask [OF False bit_positions_small [OF assms]]
  from False show ?thesis
    using m(1) [of i] m(2) set_bit_positions [of this]
    by (simp add: to_bit_vector_def to_bit_indices_small [OF assms] Let_def)
qed

section \<open>Assignment of a bit range\<close>

lemma copy_loop:
  "n \<le> length src \<Longrightarrow> p + n \<le> length arr \<Longrightarrow>
   fold (\<lambda>i (arr, new_t_ptr). (arr[new_t_ptr := src ! i], new_t_ptr + 1)) [0..<n] (arr, p)
     = (take p arr @ take n src @ drop (p + n) arr, p + n)"
proof (induction n)
  case 0
  then show ?case by simp
next
  case (Suc n)
  then have n: "n < length src" and pn: "p + n < length arr" by simp_all
  have "(take p arr @ take n src @ drop (p + n) arr)[p + n := src ! n]
          = take p arr @ take (Suc n) src @ drop (p + Suc n) arr"
  proof -
    have "drop (p + n) arr = arr ! (p + n) # drop (Suc (p + n)) arr"
      using pn by (simp add: Cons_nth_drop_Suc)
    moreover have "length (take p arr) = p" "length (take n src) = n" using n pn by simp_all
    ultimately show ?thesis
      using n by (simp add: list_update_append take_Suc_conv_app_nth)
  qed
  with Suc show ?case by simp
qed

lemma copy_through_ptr_eq:
  "p + length src \<le> length arr \<Longrightarrow>
   copy_through_ptr src (arr, p) = (take p arr @ src @ drop (p + length src) arr, p + length src)"
  unfolding copy_through_ptr_def using copy_loop [of "length src" src p arr] by simp

lemma copy_three:
  "fst (copy_through_ptr c (copy_through_ptr b (copy_through_ptr a
      (replicate (length a + length b + length c) (0::nat), 0)))) = a @ b @ c"
  by (simp add: copy_through_ptr_eq)

lemma reconfigure_indices_eq: "reconfigure_indices i this = big_whole_of_indices i"
proof -
  obtain faults temp where t: "big_whole_of_indices i = (faults, temp)"
    by (cases "big_whole_of_indices i")
  have "fst (swap this temp) = temp"
    by (cases this; cases temp) (simp add: swap_def)
  with t show ?thesis by (simp add: reconfigure_indices_def)
qed

text \<open>The index list that \<open>bits_assign\<close> rebuilds the receiver from.\<close>

lemma bits_assign_ids:
  "bits_assign from to values this =
     (let lo = min from to; hi = max from to;
          ids = filter (\<lambda>x. x < lo) (to_bit_indices this) @
                map (\<lambda>x. x + lo) (filter (\<lambda>x. x \<le> hi - lo) (to_bit_indices values)) @
                filter (\<lambda>x. x > hi) (to_bit_indices this)
      in (subscript_check ids 0 @ fst (big_whole_of_indices ids), snd (big_whole_of_indices ids)))"
proof -
  define lo hi where "lo = min from to" and "hi = max from to"
  then have sw: "(if from > to then (to, from) else (from, to)) = (lo, hi)"
    by (auto simp: min_def max_def)
  show ?thesis
    unfolding bits_assign_def sw lo_def [symmetric] hi_def [symmetric]
    by (simp add: Let_def copy_three reconfigure_indices_eq subscript_check_def split: prod.split)
qed

lemma bits_assign_bounded:
  assumes "length_bw this \<le> 2 ^ 31" "length_bw values \<le> 2 ^ 31" "max from to < size_t_range - 1"
  shows "test (snd (bits_assign from to values this)) i =
     (if min from to \<le> i \<and> i \<le> max from to then test values (i - min from to) else test this i)"
    and "fst (bits_assign from to values this) = [] \<longleftrightarrow>
     (\<exists>i. test (snd (bits_assign from to values this)) i)"
proof -
  define lo hi where "lo = min from to" and "hi = max from to"
  then have lohi: "lo \<le> hi" by simp
  define ids where "ids = filter (\<lambda>x. x < lo) (bit_positions this) @
                map (\<lambda>x. x + lo) (filter (\<lambda>x. x \<le> hi - lo) (bit_positions values)) @
                filter (\<lambda>x. x > hi) (bit_positions this)"
  have r: "bits_assign from to values this =
      (subscript_check ids 0 @ fst (big_whole_of_indices ids), snd (big_whole_of_indices ids))"
    unfolding bits_assign_ids ids_def lo_def hi_def
      to_bit_indices_small [OF assms(1)] to_bit_indices_small [OF assms(2)]
    by (simp add: Let_def)
  have small: "\<forall>k\<in>set ids. k < size_t_range - 1"
  proof
    fix k assume "k \<in> set ids"
    then consider "k \<in> set (bit_positions this)"
      | j where "j \<le> hi - lo" "k = j + lo"
      by (auto simp: ids_def)
    then show "k < size_t_range - 1"
    proof cases
      case 1
      then show ?thesis using bit_positions_small [OF assms(1)] by blast
    next
      case 2
      with lohi have "k \<le> hi" by simp
      then show ?thesis using assms(3) unfolding hi_def by (rule le_less_trans)
    qed
  qed
  note ok = big_whole_of_indices_ok [OF small]
  have mem: "i \<in> set ids \<longleftrightarrow> (if lo \<le> i \<and> i \<le> hi then test values (i - lo) else test this i)" for i
  proof -
    have "(\<exists>k. test values k \<and> k \<le> hi - lo \<and> i = k + lo) \<longleftrightarrow> (lo \<le> i \<and> i \<le> hi \<and> test values (i - lo))"
    proof
      assume "\<exists>k. test values k \<and> k \<le> hi - lo \<and> i = k + lo"
      then show "lo \<le> i \<and> i \<le> hi \<and> test values (i - lo)" using lohi by auto
    next
      assume a: "lo \<le> i \<and> i \<le> hi \<and> test values (i - lo)"
      then have "test values (i - lo) \<and> i - lo \<le> hi - lo \<and> i = (i - lo) + lo" by auto
      then show "\<exists>k. test values k \<and> k \<le> hi - lo \<and> i = k + lo" by blast
    qed
    then show ?thesis
      by (auto simp: ids_def set_bit_positions image_iff)
  qed
  show "test (snd (bits_assign from to values this)) i =
     (if min from to \<le> i \<and> i \<le> max from to then test values (i - min from to) else test this i)"
    unfolding r using ok(2) [of i] mem [of i] by (simp add: lo_def hi_def)
  have "ids \<noteq> [] \<longleftrightarrow> (\<exists>i. i \<in> set ids)"
    by (metis all_not_in_conv set_empty)
  then show "fst (bits_assign from to values this) = [] \<longleftrightarrow>
     (\<exists>i. test (snd (bits_assign from to values this)) i)"
    unfolding r using ok by (simp add: subscript_check_def)
qed

section \<open>Changing single bits and ranges of bits\<close>

lemma stored_words_pointee: "stored_words this = pointee (x_ptr this)"
  by (simp add: stored_words_def pointee_def)

lemma va_size_pointee: "va_size v = length (pointee v)"
  by (simp add: va_size_def pointee_def split: option.split)

lemma pointee_grow: "pointee (grow v n) = pointee v @ replicate (n - va_size v) 0"
proof (cases v)
  case None
  then show ?thesis by (simp add: grow_def pointee_def va_size_def)
next
  case (Some a)
  then show ?thesis
    by (cases "a = []") (simp_all add: grow_def pointee_def va_size_def slice_assign_def)
qed

lemma wbit_grow: "wbit (pointee (grow v n)) i = wbit (pointee v) i"
  by (simp add: pointee_grow wbit_append_zeros)

lemma va_size_grow: "va_size v \<le> n \<Longrightarrow> va_size (grow v n) = n"
  by (simp add: va_size_pointee pointee_grow)

lemma pointee_va_modify: "pointee (va_modify v k f) = (pointee v)[k := f (pointee v ! k)]"
  by (cases v) (simp_all add: va_modify_def pointee_def)

lemma va_size_va_modify: "va_size (va_modify v k f) = va_size v"
  by (simp add: va_size_pointee pointee_va_modify)

lemma wbit_update:
  "wbit (xs[k := w]) i = (if i div limits_digits = k \<and> k < length xs then bit w (i mod limits_digits) else wbit xs i)"
  by (auto simp: wbit_def)

lemma wbit_va_modify:
  "wbit (pointee (va_modify v k f)) i =
     (if i div limits_digits = k \<and> k < va_size v then bit (f (pointee v ! k)) (i mod limits_digits)
      else wbit (pointee v) i)"
  by (simp add: pointee_va_modify wbit_update va_size_pointee)

lemma bit_single: "bit (push_bit (i mod limits_digits) 1 :: word_type) j \<longleftrightarrow> j = i mod limits_digits"
  by (auto simp: bit_exp_iff)

lemma test_pointee: "test this i = wbit (pointee (x_ptr this)) i"
  by (simp add: test_wbit stored_words_pointee)

lemma wbit_beyond: "va_size v \<le> i div limits_digits \<Longrightarrow> \<not> wbit (pointee v) i"
  by (simp add: wbit_def va_size_pointee)

lemma wbit_in:
  "i div limits_digits = k \<Longrightarrow> k < va_size v \<Longrightarrow>
   wbit (pointee v) i = bit (pointee v ! k) (i mod limits_digits)"
  by (auto simp: wbit_def va_size_pointee)

lemma wbit_apply_mask:
  assumes "op \<noteq> reset_bit \<longrightarrow> k < va_size v"
  shows "wbit (pointee (apply_mask op v k m)) i =
     (if i div limits_digits = k \<and> bit m (i mod limits_digits)
      then bit_after op (wbit (pointee v) i) else wbit (pointee v) i)"
proof (cases "k < va_size v")
  case False
  with assms have op: "op = reset_bit" by auto
  from False have "i div limits_digits = k \<Longrightarrow> \<not> wbit (pointee v) i"
    by (simp add: wbit_beyond)
  with False show ?thesis
    by (auto simp: op apply_mask_def bit_after_def)
next
  case True
  show ?thesis
  proof (cases "i div limits_digits = k")
    case False
    then show ?thesis
      by (cases op) (simp_all add: apply_mask_def wbit_va_modify)
  next
    case k: True
    note w = wbit_in [OF k True]
    show ?thesis
    proof (cases op)
      case reset_bit
      with True k show ?thesis
        by (simp add: apply_mask_def wbit_va_modify w bit_after_def bit_and_iff bit_not_iff)
    next
      case set_bit
      with True k show ?thesis
        by (simp add: apply_mask_def wbit_va_modify w bit_after_def bit_or_iff)
    next
      case flip_bit
      with True k show ?thesis
        by (simp add: apply_mask_def wbit_va_modify w bit_after_def bit_xor_iff)
    qed
  qed
qed

lemma va_size_apply_mask: "va_size (apply_mask op v k m) = va_size v"
  by (cases op) (simp_all add: apply_mask_def va_size_va_modify)

lemma bit_change_apply_mask:
  "bit_change k op this =
     this\<lparr>x_ptr := apply_mask op
        (if k div limits_digits \<ge> va_size (x_ptr this) \<and> op \<noteq> reset_bit
         then grow (x_ptr this) (k div limits_digits + 1) else x_ptr this)
        (k div limits_digits) (push_bit (k mod limits_digits) 1)\<rparr>"
  by (cases op) (simp_all add: bit_change_def apply_mask_def Let_def del: push_bit_of_1)

lemma test_bit_change:
  "test (bit_change k op this) i = (if i = k then bit_after op (test this i) else test this i)"
proof -
  define v where "v = (if k div limits_digits \<ge> va_size (x_ptr this) \<and> op \<noteq> reset_bit
         then grow (x_ptr this) (k div limits_digits + 1) else x_ptr this)"
  define m :: word_type where "m = push_bit (k mod limits_digits) 1"
  have sz: "op \<noteq> reset_bit \<longrightarrow> k div limits_digits < va_size v"
    by (simp add: v_def va_size_grow)
  have wb: "wbit (pointee v) i = test this i"
    by (simp add: v_def wbit_grow test_pointee)
  have ik: "i div limits_digits = k div limits_digits \<and> bit m (i mod limits_digits) \<longleftrightarrow> i = k"
    unfolding m_def bit_single using index_eq_div_mod [of i k] by simp
  have "test (bit_change k op this) i = wbit (pointee (apply_mask op v (k div limits_digits) m)) i"
    unfolding bit_change_apply_mask v_def m_def by (simp add: test_pointee del: push_bit_of_1)
  also have "\<dots> = (if i div limits_digits = k div limits_digits \<and> bit m (i mod limits_digits)
      then bit_after op (wbit (pointee v) i) else wbit (pointee v) i)"
    by (rule wbit_apply_mask [OF sz])
  finally show ?thesis unfolding ik wb .
qed

lemma test_fold_bit_change:
  "distinct ks \<Longrightarrow>
   test (fold (\<lambda>k. bit_change k op) ks this) i =
     (if i \<in> set ks then bit_after op (test this i) else test this i)"
proof (induction ks arbitrary: this)
  case Nil
  then show ?case by simp
next
  case (Cons k ks)
  then have "test (fold (\<lambda>k. bit_change k op) ks (bit_change k op this)) i =
     (if i \<in> set ks then bit_after op (test (bit_change k op this) i) else test (bit_change k op this) i)"
    by simp
  with Cons.prems show ?case by (auto simp: test_bit_change)
qed

lemma length_slice_map: "length (slice_map f s n xs) = length xs"
  by (simp add: slice_map_def)

lemma nth_slice_map:
  assumes "s + n \<le> length xs" "k < length xs"
  shows "slice_map f s n xs ! k = (if s \<le> k \<and> k < s + n then f (xs ! k) else xs ! k)"
proof -
  consider "k < s" | "s \<le> k" "k < s + n" | "s + n \<le> k" by linarith
  then show ?thesis
  proof cases
    case 1
    with assms show ?thesis by (simp add: slice_map_def nth_append)
  next
    case 2
    then have "k - s < n" by linarith
    with 2 assms show ?thesis by (simp add: slice_map_def nth_append)
  next
    case 3
    then have "\<not> k < s" "\<not> k - s < n" "s + n + (k - s - n) = k" by simp_all
    with 3 assms show ?thesis by (simp add: slice_map_def nth_append)
  qed
qed

lemma wbit_slice_map:
  assumes "s + n \<le> length xs"
  shows "wbit (slice_map f s n xs) i =
     (if s \<le> i div limits_digits \<and> i div limits_digits < s + n
      then bit (f (xs ! (i div limits_digits))) (i mod limits_digits) else wbit xs i)"
proof (cases "i div limits_digits < length xs")
  case True
  with assms show ?thesis
    by (simp add: wbit_def length_slice_map nth_slice_map)
next
  case False
  with assms show ?thesis by (simp add: wbit_def length_slice_map)
qed

lemma pointee_map_option_slice_map:
  "pointee (map_option (slice_map f s n) v) = slice_map f s n (pointee v)"
  by (cases v) (simp_all add: pointee_def slice_map_def)

lemma va_size_map_option_slice_map: "va_size (map_option (slice_map f s n) v) = va_size v"
  by (simp add: va_size_pointee pointee_map_option_slice_map length_slice_map)

lemma wbit_fill:
  assumes "s + n \<le> va_size v"
  shows "wbit (pointee (case op of
            flip_bit \<Rightarrow> map_option (slice_map (\<lambda>w. w XOR - 1) s n) v
          | set_bit \<Rightarrow> map_option (slice_map (\<lambda>w. - 1) s n) v
          | reset_bit \<Rightarrow> map_option (slice_map (\<lambda>w. 0) s n) v)) i =
     (if s \<le> i div limits_digits \<and> i div limits_digits < s + n
      then bit_after op (wbit (pointee v) i) else wbit (pointee v) i)"
proof (cases "s \<le> i div limits_digits \<and> i div limits_digits < s + n")
  case False
  with assms show ?thesis
    by (cases op) (auto simp: pointee_map_option_slice_map wbit_slice_map va_size_pointee)
next
  case True
  with assms have "i div limits_digits < va_size v" by simp
  note w = wbit_in [OF refl this]
  from True assms show ?thesis
    by (cases op)
      (simp_all add: pointee_map_option_slice_map wbit_slice_map va_size_pointee w bit_after_def bit_xor_iff bit_not_iff)
qed

lemma bit_low_mask: "j < limits_digits \<Longrightarrow> bit (NOT (push_bit fj 1 - 1) :: word_type) j \<longleftrightarrow> fj \<le> j"
  by (auto simp: bit_not_iff bit_mask_iff simp flip: mask_eq_exp_minus_1)

lemma bit_high_mask: "j < limits_digits \<Longrightarrow> tj < limits_digits \<Longrightarrow>
    bit (push_bit tj 1 OR (push_bit tj 1 - 1) :: word_type) j \<longleftrightarrow> j \<le> tj"
  by (auto simp: bit_or_iff bit_exp_iff bit_mask_iff simp flip: mask_eq_exp_minus_1)

lemma le_div_mod:
  "a \<le> b \<longleftrightarrow> a div limits_digits < b div limits_digits \<or>
     (a div limits_digits = b div limits_digits \<and> a mod limits_digits \<le> b mod limits_digits)" for a b :: nat
proof -
  define qa ra qb rb where "qa = a div limits_digits" and "ra = a mod limits_digits"
    and "qb = b div limits_digits" and "rb = b mod limits_digits"
  have a: "a = qa * limits_digits + ra" and b: "b = qb * limits_digits + rb"
    and r: "ra < limits_digits" "rb < limits_digits"
    by (simp_all add: qa_def ra_def qb_def rb_def)
  have "a \<le> b \<longleftrightarrow> qa < qb \<or> (qa = qb \<and> ra \<le> rb)"
    unfolding a b using r by arith
  then show ?thesis by (simp add: qa_def ra_def qb_def rb_def)
qed

lemma wbit_middle:
  assumes "op \<noteq> reset_bit \<longrightarrow> ti < va_size v" "va_size v2 = va_size v"
  shows "wbit (pointee (if min (va_size v) ti > fi + 1 then
            (case op of
               flip_bit \<Rightarrow> map_option (slice_map (\<lambda>w. w XOR - 1) (fi + 1) (min (va_size v) ti - (fi + 1))) v2
             | set_bit \<Rightarrow> map_option (slice_map (\<lambda>w. - 1) (fi + 1) (min (va_size v) ti - (fi + 1))) v2
             | reset_bit \<Rightarrow> map_option (slice_map (\<lambda>w. 0) (fi + 1) (min (va_size v) ti - (fi + 1))) v2)
          else v2)) i =
     (if fi < i div limits_digits \<and> i div limits_digits < ti
      then bit_after op (wbit (pointee v2) i) else wbit (pointee v2) i)"
proof -
  define stop where "stop = min (va_size v) ti"
  have beyond: "bit_after op (wbit (pointee v2) i) = wbit (pointee v2) i"
    if "stop \<le> i div limits_digits" "i div limits_digits < ti"
  proof -
    from that have "va_size v \<le> i div limits_digits" and "op = reset_bit"
      using assms(1) by (auto simp: stop_def min_def split: if_splits)
    then show ?thesis using wbit_beyond [of v2 i] assms(2) by (simp add: bit_after_def)
  qed
  show ?thesis
  proof (cases "stop > fi + 1")
    case True
    then have le: "fi + 1 + (stop - (fi + 1)) \<le> va_size v2"
      using assms(2) by (simp add: stop_def)
    from True have eq: "fi + 1 + (stop - (fi + 1)) = stop" by simp
    show ?thesis
      unfolding stop_def [symmetric] using True beyond
      by (simp add: wbit_fill [OF le] eq) (metis Suc_leI not_less stop_def min.cobounded2 order_less_le_trans)
  next
    case False
    then show ?thesis
      unfolding stop_def [symmetric] using beyond by auto
  qed
qed

lemma test_bit_change_range:
  "test (bit_change_range from to op this) i =
     (if min from to \<le> i \<and> i \<le> max from to then bit_after op (test this i) else test this i)"
proof -
  define lo hi where "lo = min from to" and "hi = max from to"
  then have lohi: "lo \<le> hi" and sw: "(if from > to then (to, from) else (from, to)) = (lo, hi)"
    by (auto simp: min_def max_def)
  define fi fj ti tj where "fi = lo div limits_digits" and "fj = lo mod limits_digits"
    and "ti = hi div limits_digits" and "tj = hi mod limits_digits"
  define fm tm :: word_type where "fm = NOT (push_bit fj 1 - 1)"
    and "tm = push_bit tj 1 OR (push_bit tj 1 - 1)"
  define v where "v = (if ti \<ge> va_size (x_ptr this) \<and> op \<noteq> reset_bit
                      then grow (x_ptr this) (ti + 1) else x_ptr this)"
  define k j where "k = i div limits_digits" and "j = i mod limits_digits"
  have j: "j < limits_digits" and tj: "tj < limits_digits" by (simp_all add: j_def tj_def)
  have sz: "op \<noteq> reset_bit \<longrightarrow> ti < va_size v"
    by (simp add: v_def va_size_grow)
  have wb: "wbit (pointee v) i = test this i"
    by (simp add: v_def wbit_grow test_pointee)
  have fiti: "fi \<le> ti" using lohi by (simp add: fi_def ti_def div_le_mono)
  have rng: "lo \<le> i \<and> i \<le> hi \<longleftrightarrow>
      (fi < k \<or> (fi = k \<and> fj \<le> j)) \<and> (k < ti \<or> (k = ti \<and> j \<le> tj))"
    using le_div_mod [of lo i] le_div_mod [of i hi]
    by (simp add: fi_def fj_def ti_def tj_def k_def j_def)
  have bfm: "bit fm j \<longleftrightarrow> fj \<le> j" unfolding fm_def using j by (rule bit_low_mask)
  have btm: "bit tm j \<longleftrightarrow> j \<le> tj" unfolding tm_def using j tj by (rule bit_high_mask)
  have goal: "wbit (pointee r) i = (if lo \<le> i \<and> i \<le> hi then bit_after op (test this i) else test this i)
      \<Longrightarrow> bit_change_range from to op this = this\<lparr>x_ptr := r\<rparr> \<Longrightarrow> ?thesis" for r
    by (simp add: test_pointee lo_def hi_def)
  show ?thesis
  proof (cases "fi = ti")
    case True
    have r: "bit_change_range from to op this = this\<lparr>x_ptr := apply_mask op v fi (fm AND tm)\<rparr>"
      unfolding bit_change_range_def sw v_def fm_def tm_def
      using True unfolding fi_def fj_def ti_def tj_def
      by (cases op) (simp_all add: Let_def apply_mask_def del: push_bit_of_1)
    from sz True have "op \<noteq> reset_bit \<longrightarrow> fi < va_size v" by simp
    from wbit_apply_mask [OF this, of "fm AND tm" i]
    have "wbit (pointee (apply_mask op v fi (fm AND tm))) i =
        (if lo \<le> i \<and> i \<le> hi then bit_after op (test this i) else test this i)"
      unfolding wb rng k_def [symmetric] j_def [symmetric] bit_and_iff bfm btm
      using True by auto
    then show ?thesis using r by (rule goal)
  next
    case False
    with fiti have lt: "fi < ti" by simp
    define v2 where "v2 = apply_mask op v fi fm"
    define v3 where "v3 = (if min (va_size v) ti > fi + 1 then
            (case op of
               flip_bit \<Rightarrow> map_option (slice_map (\<lambda>w. w XOR - 1) (fi + 1) (min (va_size v) ti - (fi + 1))) v2
             | set_bit \<Rightarrow> map_option (slice_map (\<lambda>w. - 1) (fi + 1) (min (va_size v) ti - (fi + 1))) v2
             | reset_bit \<Rightarrow> map_option (slice_map (\<lambda>w. 0) (fi + 1) (min (va_size v) ti - (fi + 1))) v2)
          else v2)"
    define v4 where "v4 = apply_mask op v3 ti tm"
    have r: "bit_change_range from to op this = this\<lparr>x_ptr := v4\<rparr>"
      unfolding bit_change_range_def sw v4_def v3_def v2_def v_def fm_def tm_def
      using False unfolding fi_def fj_def ti_def tj_def
      by (cases op) (simp_all add: Let_def apply_mask_def va_size_va_modify va_size_map_option_slice_map
          del: push_bit_of_1)
    have s2: "va_size v2 = va_size v" by (simp add: v2_def va_size_apply_mask)
    have s3: "va_size v3 = va_size v"
      by (cases op) (simp_all add: v3_def va_size_map_option_slice_map s2)
    from sz lt have "op \<noteq> reset_bit \<longrightarrow> fi < va_size v" by auto
    from wbit_apply_mask [OF this, of fm i]
    have w2: "wbit (pointee v2) i = (if k = fi \<and> fj \<le> j then bit_after op (test this i) else test this i)"
      unfolding v2_def wb k_def [symmetric] j_def [symmetric] bfm .
    from wbit_middle [OF sz s2, of fi i]
    have w3: "wbit (pointee v3) i = (if fi < k \<and> k < ti then bit_after op (wbit (pointee v2) i) else wbit (pointee v2) i)"
      unfolding v3_def k_def [symmetric] .
    from sz s3 have "op \<noteq> reset_bit \<longrightarrow> ti < va_size v3" by simp
    from wbit_apply_mask [OF this, of tm i]
    have w4: "wbit (pointee v4) i = (if k = ti \<and> j \<le> tj then bit_after op (wbit (pointee v3) i) else wbit (pointee v3) i)"
      unfolding v4_def k_def [symmetric] j_def [symmetric] btm .
    have "wbit (pointee v4) i = (if lo \<le> i \<and> i \<le> hi then bit_after op (test this i) else test this i)"
      unfolding w4 w3 w2 rng using lt by auto
    then show ?thesis using r by (rule goal)
  qed
qed

section \<open>Copies and the value one\<close>

lemma big_whole_copy_id: "big_whole_copy w = w"
  by (cases w) (simp add: big_whole_copy_def split: option.split)

lemma test_one: "test \<lparr>x_ptr = Some [1]\<rparr> i \<longleftrightarrow> i = 0"
proof -
  have "bit (1::word_type) (i mod 32) \<and> i < 32 \<longleftrightarrow> i = 0"
    by (auto simp: bit_1_iff)
  then show ?thesis by (auto simp: test_wbit wbit_def stored_words_def)
qed

section \<open>Values below \<open>2^31\<close> bits, and the first value above\<close>

lemma view_round_trip_bounded:
  assumes "length_bw v \<le> 2 ^ 31"
  shows "fst (big_whole_of_indices (to_bit_indices v)) = []"
    and "\<forall>i. test (snd (big_whole_of_indices (to_bit_indices v))) i = test v i"
    and "fst (to_bit_vector v) = []"
    and "\<forall>i. test (big_whole_of_mask (snd (to_bit_vector v))) i = test v i"
proof -
  note small = bit_positions_small [OF assms]
  show "fst (big_whole_of_indices (to_bit_indices v)) = []"
    unfolding to_bit_indices_small [OF assms] by (rule big_whole_of_indices_ok(1) [OF small])
  show "\<forall>i. test (snd (big_whole_of_indices (to_bit_indices v))) i = test v i"
    unfolding to_bit_indices_small [OF assms]
    by (simp add: big_whole_of_indices_ok(2) [OF small] set_bit_positions)
  show "fst (to_bit_vector v) = []"
    using to_bit_vector_ok [OF assms] by simp
  show "\<forall>i. test (big_whole_of_mask (snd (to_bit_vector v))) i = test v i"
    using to_bit_vector_ok [OF assms] by (simp add: test_big_whole_of_mask)
qed

lemma wrapped_index_32: "wrapped_index (2 ^ 32) = 0"
  by (simp add: wrapped_index_def size_t_of_int_def)

lemma bit_positions_of_set:
  assumes "\<forall>i. test v i = (i \<in> set ks)" "sorted ks" "distinct ks"
  shows "bit_positions v = ks"
proof (rule sorted_distinct_set_unique)
  show "set (bit_positions v) = set ks"
    using assms(1) by (auto simp: set_bit_positions)
qed (simp_all add: sorted_bit_positions distinct_bit_positions assms)

lemma length_bw_bound:
  assumes "\<forall>i. test v i \<longrightarrow> i < n"
  shows "length_bw v \<le> n"
proof (cases "length_bw v")
  case 0
  then show ?thesis by simp
next
  case (Suc l)
  then have "test v l" using length_bw_top(1) [of v "Suc l"] by simp
  with assms have "l < n" by simp
  with Suc show ?thesis by simp
qed

lemma to_bit_indices_of_set:
  assumes "\<forall>i. test v i = (i \<in> set ks)" "sorted ks" "distinct ks" "\<forall>k\<in>set ks. k < 2 ^ 31"
  shows "to_bit_indices v = ks" and "length_bw v \<le> 2 ^ 31"
proof -
  show l: "length_bw v \<le> 2 ^ 31"
    using assms(1,4) by (intro length_bw_bound) simp
  show "to_bit_indices v = ks"
    unfolding to_bit_indices_small [OF l] using assms(1-3) by (rule bit_positions_of_set)
qed

lemma example_objects:
  "\<forall>i. test (snd (big_whole_of_indices [0, 5])) i = (i \<in> set [0, 5])"
  "\<forall>i. test (snd (big_whole_of_indices [0, 1])) i = (i \<in> set [0, 1])"
  "length_bw (snd (big_whole_of_indices [0, 5])) \<le> 2 ^ 31"
  "length_bw (snd (big_whole_of_indices [0, 1])) \<le> 2 ^ 31"
proof -
  have "\<forall>k\<in>set [0, 5 :: nat]. k < size_t_range - 1" by simp
  from big_whole_of_indices_ok(2) [OF this]
  show a: "\<forall>i. test (snd (big_whole_of_indices [0, 5])) i = (i \<in> set [0, 5])" by blast
  have "\<forall>k\<in>set [0, 1 :: nat]. k < size_t_range - 1" by simp
  from big_whole_of_indices_ok(2) [OF this]
  show b: "\<forall>i. test (snd (big_whole_of_indices [0, 1])) i = (i \<in> set [0, 1])" by blast
  show "length_bw (snd (big_whole_of_indices [0, 5])) \<le> 2 ^ 31"
    by (rule to_bit_indices_of_set(2) [OF a]) simp_all
  show "length_bw (snd (big_whole_of_indices [0, 1])) \<le> 2 ^ 31"
    by (rule to_bit_indices_of_set(2) [OF b]) simp_all
qed

lemma example_bits_assign:
  "to_bit_indices (snd (bits_assign 2 4 (snd (big_whole_of_indices [0, 1])) (snd (big_whole_of_indices [0, 5]))))
     = [0, 2, 3, 5]"
proof -
  define r0 s0 where "r0 = snd (big_whole_of_indices [0, 5])" and "s0 = snd (big_whole_of_indices [0, 1])"
  have tr: "test r0 i = (i = 0 \<or> i = 5)" and ts: "test s0 i = (i = 0 \<or> i = 1)" for i
    using example_objects(1,2) by (simp_all add: r0_def s0_def)
  have l: "length_bw r0 \<le> 2 ^ 31" "length_bw s0 \<le> 2 ^ 31"
    using example_objects(3,4) by (simp_all add: r0_def s0_def)
  have "max 2 4 < size_t_range - 1" by simp
  from bits_assign_bounded(1) [OF l this]
  have b: "test (snd (bits_assign 2 4 s0 r0)) i = (if 2 \<le> i \<and> i \<le> 4 then test s0 (i - 2) else test r0 i)" for i
    by simp
  have "\<forall>i. test (snd (bits_assign 2 4 s0 r0)) i = (i \<in> set [0, 2, 3, 5])"
    unfolding b tr ts by auto
  then have "to_bit_indices (snd (bits_assign 2 4 s0 r0)) = [0, 2, 3, 5]"
    by (rule to_bit_indices_of_set(1)) simp_all
  then show ?thesis by (simp only: r0_def s0_def)
qed

text \<open>
  Within the bounds of the index arithmetic, and when the rebuilt index set is not empty,
  \<open>bits_assign\<close> makes no out-of-domain subscript and replaces exactly the range.
\<close>

lemma bits_assign_range_bounded:
  assumes "length_bw r \<le> 2 ^ 31" and "length_bw s \<le> 2 ^ 31"
    and "max from to < size_t_range - 1"
    and "(\<exists>i. (i < min from to \<or> max from to < i) \<and> test r i) \<or>
         (\<exists>k\<le>max from to - min from to. test s k)"
  shows "fst (bits_assign from to s r) = []"
    and "i < min from to \<or> max from to < i \<Longrightarrow> test (snd (bits_assign from to s r)) i = test r i"
    and "k \<le> max from to - min from to \<Longrightarrow>
          test (snd (bits_assign from to s r)) (min from to + k) = test s k"
proof -
  note b = bits_assign_bounded [OF assms(1,2,3)]
  from assms(4) have "\<exists>i. test (snd (bits_assign from to s r)) i"
  proof
    assume "\<exists>i. (i < min from to \<or> max from to < i) \<and> test r i"
    then obtain i where "i < min from to \<or> max from to < i" "test r i" by blast
    then have "test (snd (bits_assign from to s r)) i" by (auto simp: b(1))
    then show ?thesis ..
  next
    assume "\<exists>k\<le>max from to - min from to. test s k"
    then obtain k where "k \<le> max from to - min from to" "test s k" by blast
    then have "test (snd (bits_assign from to s r)) (min from to + k)" by (auto simp: b(1))
    then show ?thesis ..
  qed
  then show "fst (bits_assign from to s r) = []" by (simp add: b(2))
  show "test (snd (bits_assign from to s r)) i = test r i" if "i < min from to \<or> max from to < i"
    using that by (auto simp: b(1))
  show "test (snd (bits_assign from to s r)) (min from to + k) = test s k"
    if "k \<le> max from to - min from to"
    using that by (auto simp: b(1))
qed

text \<open>The value whose only set bit is bit \<open>2^32\<close>: its index list is \<open>{0}\<close>.\<close>

lemma test_bit_32: "test (set_bw (2 ^ 32) big_whole_default) i = (i = 2 ^ 32)"
proof -
  have "\<not> test big_whole_default i" for i
    by (simp add: test_def big_whole_default_def)
  then show ?thesis by (simp add: set_bw_def test_bit_change bit_after_def)
qed

lemma to_bit_indices_bit_32: "to_bit_indices (set_bw (2 ^ 32) big_whole_default) = [0]"
proof -
  have "\<forall>i. test (set_bw (2 ^ 32) big_whole_default) i = (i \<in> set [2 ^ 32])"
    using test_bit_32 by simp
  then have "bit_positions (set_bw (2 ^ 32) big_whole_default) = [2 ^ 32]"
    by (rule bit_positions_of_set) simp_all
  then show ?thesis
    using wrapped_index_32 by (simp add: to_bit_indices_positions)
qed

lemma big_whole_of_indices_0:
  "fst (big_whole_of_indices [0]) = []" "test (snd (big_whole_of_indices [0])) i = (i = 0)"
proof -
  have b: "\<forall>k\<in>set [0::nat]. k < size_t_range - 1" by simp
  show "fst (big_whole_of_indices [0]) = []" by (rule big_whole_of_indices_ok(1) [OF b])
  show "test (snd (big_whole_of_indices [0])) i = (i = 0)"
    using big_whole_of_indices_ok(2) [OF b, of i] by simp
qed


section \<open>The claims\<close>

text \<open>
  Claim C1. For every value \<open>v\<close>, \<open>length(v) = 0\<close> if and only if \<open>any(v)\<close> is false; and
  whenever \<open>length(v) = L > 0\<close>, \<open>test(v, L - 1)\<close> is true and \<open>test(v, i)\<close> is false for
  every index \<open>i \<ge> L\<close>.
\<close>

theorem canonical_length:
  "(length_bw v = 0 \<longleftrightarrow> any v = False) \<and>
   (\<forall>L. length_bw v = L \<and> L > 0 \<longrightarrow> test v (L - 1) = True \<and> (\<forall>i\<ge>L. test v i = False))"
  using length_bw_zero_iff [of v] length_bw_top [of v] by simp

theorem canonical_length_witness:
  "length_bw \<lparr>x_ptr = Some [5, 0]\<rparr> = 3 \<and> 3 > (0::nat) \<and>
   test \<lparr>x_ptr = Some [5, 0]\<rparr> (3 - 1) = True \<and> (3::nat) \<le> 40 \<and> test \<lparr>x_ptr = Some [5, 0]\<rparr> 40 = False"
proof -
  have h: "length_bw \<lparr>x_ptr = Some [5, 0]\<rparr> = 3 \<and> 3 > (0::nat)"
    by code_simp
  from canonical_length [of "\<lparr>x_ptr = Some [5, 0]\<rparr>"] h
  have "test \<lparr>x_ptr = Some [5, 0]\<rparr> (3 - 1) = True \<and> (\<forall>i\<ge>3. test \<lparr>x_ptr = Some [5, 0]\<rparr> i = False)"
    by blast
  with h show ?thesis by simp
qed

text \<open>
  Claim C2. For every starting value \<open>v\<close> and every pair of endpoints \<open>a\<close>, \<open>b\<close> (in either
  order), applying the range form of \<open>set\<close>, \<open>reset\<close> or \<open>flip\<close> once over \<open>[a, b]\<close> yields
  a value observably equal (under \<open>test\<close> at every index, \<open>length\<close> and \<open>count\<close>) to
  applying the corresponding single-bit form to every index of \<open>[a, b]\<close>, in any order: the
  list \<open>ks\<close> enumerates the range, each index once.
\<close>

theorem range_equals_iterated_single_bit:
  assumes "distinct ks" and "set ks = {min a b..max a b}"
  shows "observably_equal (set_range a b v) (fold set_bw ks v) \<and>
         observably_equal (reset_range a b v) (fold reset ks v) \<and>
         observably_equal (flip_range a b v) (fold flip ks v)"
proof -
  have t: "\<forall>i. test (bit_change_range a b op v) i = test (fold (\<lambda>k. bit_change k op) ks v) i" for op
    using assms by (simp add: test_bit_change_range test_fold_bit_change)
  have eq: "observably_equal (bit_change_range a b op v) (fold (\<lambda>k. bit_change k op) ks v)" for op
    unfolding observably_equal_def using t [of op] reads_cong(1,2) [OF t [of op]] by simp
  show ?thesis
    unfolding set_range_def reset_range_def flip_range_def
      set_bw_def [abs_def] reset_def [abs_def] flip_def [abs_def]
    by (intro conjI eq)
qed

theorem range_equals_iterated_single_bit_witness:
  "distinct [2, 3, 1 :: nat] \<and> set [2, 3, 1 :: nat] = {min 3 1..max 3 1} \<and>
   observably_equal (flip_range 3 1 \<lparr>x_ptr = Some [5]\<rparr>) (fold flip [2, 3, 1] \<lparr>x_ptr = Some [5]\<rparr>) \<and>
   observably_equal (set_range 3 1 \<lparr>x_ptr = None\<rparr>) (fold set_bw [2, 3, 1] \<lparr>x_ptr = None\<rparr>) \<and>
   observably_equal (reset_range 3 1 \<lparr>x_ptr = Some [5]\<rparr>) (fold reset [2, 3, 1] \<lparr>x_ptr = Some [5]\<rparr>)"
proof -
  have h1: "distinct [2, 3, 1 :: nat]" by simp
  have h2: "set [2, 3, 1 :: nat] = {min 3 1..max 3 1}" by auto
  from range_equals_iterated_single_bit [OF h1 h2, of "\<lparr>x_ptr = Some [5]\<rparr>"]
    range_equals_iterated_single_bit [OF h1 h2, of "\<lparr>x_ptr = None\<rparr>"] h1 h2
  show ?thesis by blast
qed

text \<open>
  Claim C3 says that \<open>bits_assign(from, to, s)\<close> leaves every receiver bit outside the
  range unchanged and sets receiver bit \<open>from + k\<close> to bit \<open>k\<close> of \<open>s\<close>, for every receiver,
  source and pair of endpoints. Two inputs where the code does otherwise. With
  \<open>from = to = 2^64 - 1\<close> and bit 0 of the source set, the mask of \<open>bit_indices_to_va\<close> is
  resized to \<open>max() + 1\<close>, which is 0 in \<open>size_t\<close>, and the indirect assignment subscripts
  outside it. With the receiver whose only set bit is bit \<open>2^32\<close>, a zero source and
  \<open>from = to = 5\<close>, no subscript leaves its domain, and the receiver ends with bit 0 set
  and bit \<open>2^32\<close> clear: the \<open>int\<close> counter of \<open>to_bit_indices\<close> has turned the index
  \<open>2^32\<close> into 0.
\<close>

theorem bits_assign_failing_inputs:
  "test \<lparr>x_ptr = Some [1]\<rparr> 0 \<and>
   fst (bits_assign (2 ^ 64 - 1) (2 ^ 64 - 1) \<lparr>x_ptr = Some [1]\<rparr> big_whole_default)
     = [Subscript_Out_Of_Domain (2 ^ 64 - 1) 0] \<and>
   test (set_bw (2 ^ 32) big_whole_default) (2 ^ 32) \<and>
   \<not> test (set_bw (2 ^ 32) big_whole_default) 0 \<and>
   fst (bits_assign 5 5 big_whole_default (set_bw (2 ^ 32) big_whole_default)) = [] \<and>
   test (snd (bits_assign 5 5 big_whole_default (set_bw (2 ^ 32) big_whole_default))) 0 \<and>
   \<not> test (snd (bits_assign 5 5 big_whole_default (set_bw (2 ^ 32) big_whole_default))) (2 ^ 32)"
proof -
  have "\<forall>i. test \<lparr>x_ptr = Some [1]\<rparr> i = (i \<in> set [0])" by (simp add: test_one)
  then have s: "to_bit_indices \<lparr>x_ptr = Some [1]\<rparr> = [0]"
    by (rule to_bit_indices_of_set(1)) simp_all
  have z: "to_bit_indices big_whole_default = []"
    by (simp add: to_bit_indices_def big_whole_default_def)
  have m: "bit_indices_to_va [2 ^ 64 - 1] = ([Subscript_Out_Of_Domain (2 ^ 64 - 1) 0], [])"
    by (simp add: bit_indices_to_va_def va_max_def indirect_check_def subscript_check_def
        indirect_assign_def bit_vector_to_va_def)
  have a: "fst (bits_assign (2 ^ 64 - 1) (2 ^ 64 - 1) \<lparr>x_ptr = Some [1]\<rparr> big_whole_default)
      = [Subscript_Out_Of_Domain (2 ^ 64 - 1) 0]"
    using m by (simp add: bits_assign_ids s z subscript_check_def big_whole_of_indices_def)
  have b: "bits_assign 5 5 big_whole_default (set_bw (2 ^ 32) big_whole_default)
      = (fst (big_whole_of_indices [0]), snd (big_whole_of_indices [0]))"
    using to_bit_indices_bit_32 by (simp add: bits_assign_ids z subscript_check_def)
  have c: "test \<lparr>x_ptr = Some [1]\<rparr> 0" by (simp add: test_one)
  show ?thesis
    unfolding b using a c test_bit_32 big_whole_of_indices_0 by simp
qed

text \<open>
  Claim C4 as stated fails: \<open>bit_vector_to_va\<close> never trims. The mask of one \<open>false\<close>
  entry gives the one-word buffer \<open>[0]\<close>, which is neither empty nor ends in a non-zero
  word.
\<close>

theorem mask_not_trimmed_counterexample:
  "\<not> canonical (stored_words (big_whole_of_mask [False]))"
  by (simp add: canonical_def stored_words_def big_whole_of_mask_def bit_vector_to_va_def words_for_bits_def)

text \<open>
  Claim C4, amended. For every boolean mask \<open>b\<close> of size \<open>N\<close>, construction from \<open>b\<close> sets
  bit \<open>i\<close> exactly where \<open>i < N\<close> and \<open>b[i]\<close> is true; the stored word sequence is not
  trimmed: it always has \<open>words_for_bits(N)\<close> words, all-zero words at the top included.
\<close>

theorem mask_construction:
  "(\<forall>i. test (big_whole_of_mask b) i = (i < length b \<and> b ! i)) \<and>
   length (stored_words (big_whole_of_mask b)) = words_for_bits (length b)"
proof
  show "\<forall>i. test (big_whole_of_mask b) i = (i < length b \<and> b ! i)"
    by (simp add: test_big_whole_of_mask)
  show "length (stored_words (big_whole_of_mask b)) = words_for_bits (length b)"
    by (simp add: stored_words_def big_whole_of_mask_def length_bit_vector_to_va)
qed

text \<open>
  Claim C5 says that the value rebuilt from \<open>to_bit_indices(v)\<close>, and likewise the one
  rebuilt from \<open>to_bit_vector(v)\<close>, is observably equal to \<open>v\<close> under \<open>test\<close> at every
  index. For the value with the single bit \<open>2^32\<close> the \<open>int\<close> counter of
  \<open>to_bit_indices\<close> wraps: the index list is \<open>{0}\<close> and the mask is \<open>{true}\<close>, no
  subscript leaves its domain, and both rebuilt values have bit 0 set and bit \<open>2^32\<close>
  clear.
\<close>

theorem round_trip_loses_high_bit:
  "test (set_bw (2 ^ 32) big_whole_default) (2 ^ 32) \<and>
   \<not> test (set_bw (2 ^ 32) big_whole_default) 0 \<and>
   to_bit_indices (set_bw (2 ^ 32) big_whole_default) = [0] \<and>
   fst (big_whole_of_indices (to_bit_indices (set_bw (2 ^ 32) big_whole_default))) = [] \<and>
   test (snd (big_whole_of_indices (to_bit_indices (set_bw (2 ^ 32) big_whole_default)))) 0 \<and>
   \<not> test (snd (big_whole_of_indices (to_bit_indices (set_bw (2 ^ 32) big_whole_default)))) (2 ^ 32) \<and>
   to_bit_vector (set_bw (2 ^ 32) big_whole_default) = ([], [True]) \<and>
   test (big_whole_of_mask (snd (to_bit_vector (set_bw (2 ^ 32) big_whole_default)))) 0 \<and>
   \<not> test (big_whole_of_mask (snd (to_bit_vector (set_bw (2 ^ 32) big_whole_default)))) (2 ^ 32)"
proof -
  define v where "v = set_bw (2 ^ 32) big_whole_default"
  have t: "test v (2 ^ 32)" "\<not> test v 0"
    using test_bit_32 by (simp_all add: v_def)
  have ids: "to_bit_indices v = [0]"
    unfolding v_def by (rule to_bit_indices_bit_32)
  have a: "fst (big_whole_of_indices [0]) = []" "test (snd (big_whole_of_indices [0])) 0"
    "\<not> test (snd (big_whole_of_indices [0])) (2 ^ 32)"
    by (simp_all add: big_whole_of_indices_0)
  have m: "to_bit_vector v = ([], [True])"
    by (simp add: to_bit_vector_def ids va_max_def indirect_check_def subscript_check_def indirect_assign_def)
  have b: "test (big_whole_of_mask [True]) 0" "\<not> test (big_whole_of_mask [True]) (2 ^ 32)"
    by (simp_all add: test_big_whole_of_mask)
  from t ids a m b show ?thesis unfolding v_def [symmetric] by simp
qed

text \<open>
  Claim C6. Every read operation (\<open>length\<close>, \<open>count\<close>, \<open>any\<close>, \<open>none\<close>, \<open>test\<close>,
  \<open>to_bit_indices\<close>, \<open>to_bit_vector\<close>, \<open>to_uintmax\<close>) returns the same result on two
  internal representations that differ only in high-order all-zero words or in having a null
  buffer instead of an empty one.
\<close>

theorem reads_ignore_representation:
  assumes "stored_words a = stored_words b @ replicate n 0"
  shows "length_bw a = length_bw b \<and> count a = count b \<and> any a = any b \<and> none a = none b \<and>
         (\<forall>i. test a i = test b i) \<and> to_bit_indices a = to_bit_indices b \<and>
         to_bit_vector a = to_bit_vector b \<and> to_uintmax a = to_uintmax b"
proof -
  have t: "\<forall>i. test a i = test b i"
    using assms by (simp add: test_wbit wbit_append_zeros)
  from reads_cong [OF t] t show ?thesis by simp
qed

theorem reads_ignore_representation_witness:
  "stored_words \<lparr>x_ptr = Some [5, 0, 0]\<rparr> = stored_words \<lparr>x_ptr = Some [5]\<rparr> @ replicate 2 0 \<and>
   length_bw \<lparr>x_ptr = Some [5, 0, 0]\<rparr> = length_bw \<lparr>x_ptr = Some [5]\<rparr> \<and>
   count \<lparr>x_ptr = Some [5, 0, 0]\<rparr> = count \<lparr>x_ptr = Some [5]\<rparr> \<and>
   stored_words \<lparr>x_ptr = None\<rparr> = stored_words \<lparr>x_ptr = Some []\<rparr> @ replicate 0 0 \<and>
   to_bit_vector \<lparr>x_ptr = None\<rparr> = to_bit_vector \<lparr>x_ptr = Some []\<rparr> \<and>
   to_uintmax \<lparr>x_ptr = None\<rparr> = to_uintmax \<lparr>x_ptr = Some []\<rparr>"
proof -
  have h1: "stored_words \<lparr>x_ptr = Some [5, 0, 0]\<rparr> = stored_words \<lparr>x_ptr = Some [5]\<rparr> @ replicate 2 0"
    by (simp add: stored_words_def numeral_2_eq_2)
  have h2: "stored_words \<lparr>x_ptr = None\<rparr> = stored_words \<lparr>x_ptr = Some []\<rparr> @ replicate 0 0"
    by (simp add: stored_words_def)
  from reads_ignore_representation [OF h1] reads_ignore_representation [OF h2] h1 h2
  show ?thesis by blast
qed

text \<open>
  Claim C7 says that \<open>bits_assign\<close> completes without any out-of-domain buffer access
  also when receiver and source are both zero. There the rebuilt index array has size 0 and
  the code subscripts it at 0.
\<close>

theorem bits_assign_zero_out_of_domain:
  "fst (bits_assign 0 0 big_whole_default big_whole_default) = [Subscript_Out_Of_Domain 0 0]"
  by (simp add: bits_assign_ids to_bit_indices_def big_whole_default_def subscript_check_def
      big_whole_of_indices_def bit_indices_to_va_def)

text \<open>
  Claim C8. For every value \<open>v\<close>, \<open>to_uintmax(v)\<close> equals the low native-width bits of
  \<open>v\<close>: bit \<open>i\<close> of the returned integer equals \<open>test(v, i)\<close> for every \<open>i\<close> below the
  width of \<open>uintmax_t\<close>, and stored bits at or above that width are discarded: values that
  agree below the width convert to the same integer.
\<close>

theorem to_uintmax_low_bits:
  "(\<forall>i<uintmax_digits. bit (to_uintmax v) i = test v i) \<and>
   (\<forall>w. (\<forall>i<uintmax_digits. test w i = test v i) \<longrightarrow> to_uintmax w = to_uintmax v)"
proof (intro conjI allI impI)
  fix i assume "i < uintmax_digits"
  then show "bit (to_uintmax v) i = test v i" by (rule to_uintmax_bit)
next
  fix w assume "\<forall>i<uintmax_digits. test w i = test v i"
  then show "to_uintmax w = to_uintmax v" by (rule to_uintmax_cong)
qed

theorem to_uintmax_low_bits_witness:
  "(2::nat) < uintmax_digits \<and> bit (to_uintmax \<lparr>x_ptr = Some [5, 0, 64]\<rparr>) 2 = test \<lparr>x_ptr = Some [5, 0, 64]\<rparr> 2 \<and>
   test \<lparr>x_ptr = Some [5, 0, 64]\<rparr> 70 \<and> to_uintmax \<lparr>x_ptr = Some [5]\<rparr> = to_uintmax \<lparr>x_ptr = Some [5, 0, 64]\<rparr>"
proof -
  have h: "\<forall>i<uintmax_digits. test \<lparr>x_ptr = Some [5]\<rparr> i = test \<lparr>x_ptr = Some [5, 0, 64]\<rparr> i"
  proof (intro allI impI)
    fix i :: nat assume "i < uintmax_digits"
    then have "i div limits_digits < 2" by simp
    then consider "i div limits_digits = 0" | "i div limits_digits = 1" by linarith
    then show "test \<lparr>x_ptr = Some [5]\<rparr> i = test \<lparr>x_ptr = Some [5, 0, 64]\<rparr> i"
    proof cases
      case 1
      then show ?thesis by (simp add: test_wbit wbit_def stored_words_def)
    next
      case 2
      then show ?thesis by (simp add: test_wbit wbit_def stored_words_def)
    qed
  qed
  have t: "test \<lparr>x_ptr = Some [5, 0, 64]\<rparr> 70" by code_simp
  have a: "(2::nat) < uintmax_digits" by simp
  have "bit (to_uintmax \<lparr>x_ptr = Some [5, 0, 64]\<rparr>) 2 = test \<lparr>x_ptr = Some [5, 0, 64]\<rparr> 2"
    by (rule to_uintmax_low_bits [of "\<lparr>x_ptr = Some [5, 0, 64]\<rparr>", THEN conjunct1, rule_format, OF a])
  moreover have "to_uintmax \<lparr>x_ptr = Some [5]\<rparr> = to_uintmax \<lparr>x_ptr = Some [5, 0, 64]\<rparr>"
    by (rule to_uintmax_low_bits [of "\<lparr>x_ptr = Some [5, 0, 64]\<rparr>", THEN conjunct2, rule_format])
      (rule h [rule_format])
  ultimately show ?thesis using t a by blast
qed

text \<open>
  Claim C9. \<open>not_self()\<close> maps every non-zero value to zero and the zero value to one (a
  single set bit at index 0); the free-standing \<open>operator!\<close> returns a copy with that
  transformation applied and leaves its operand unchanged.
\<close>

theorem not_self_logical:
  "(any v \<longrightarrow> none (not_self v) \<and> (\<forall>i. \<not> test (not_self v) i) \<and> length_bw (not_self v) = 0
      \<and> to_uintmax (not_self v) = 0) \<and>
   (\<not> any v \<longrightarrow> (\<forall>i. test (not_self v) i \<longleftrightarrow> i = 0) \<and> length_bw (not_self v) = 1
      \<and> to_uintmax (not_self v) = 1) \<and>
   operator_not v = (v, not_self v)"
proof -
  have a: "not_self v = \<lparr>x_ptr = None\<rparr>" if "any v"
    using that by (cases v) (simp add: not_self_def)
  have b: "not_self v = \<lparr>x_ptr = Some [1]\<rparr>" if "\<not> any v"
    using that by (cases v) (simp add: not_self_def)
  have 1: "none \<lparr>x_ptr = None\<rparr> \<and> (\<forall>i. \<not> test \<lparr>x_ptr = None\<rparr> i) \<and> length_bw \<lparr>x_ptr = None\<rparr> = 0
      \<and> to_uintmax \<lparr>x_ptr = None\<rparr> = 0"
    by (simp add: none_def any_def test_def length_bw_def to_uintmax_def)
  have 2: "length_bw \<lparr>x_ptr = Some [1]\<rparr> = 1 \<and> to_uintmax \<lparr>x_ptr = Some [1]\<rparr> = 1"
    by code_simp
  have 3: "operator_not v = (v, not_self v)"
    by (simp add: operator_not_def big_whole_copy_id)
  show ?thesis using a b 1 2 3 test_one by simp
qed

theorem not_self_logical_witness:
  "any \<lparr>x_ptr = Some [8]\<rparr> \<and> none (not_self \<lparr>x_ptr = Some [8]\<rparr>) \<and>
   \<not> any \<lparr>x_ptr = None\<rparr> \<and> test (not_self \<lparr>x_ptr = None\<rparr>) 0"
proof -
  have h1: "any \<lparr>x_ptr = Some [8]\<rparr>" by (simp add: any_def va_max_def)
  have h2: "\<not> any \<lparr>x_ptr = None\<rparr>" by (simp add: any_def)
  from not_self_logical [of "\<lparr>x_ptr = Some [8]\<rparr>"] h1 have "none (not_self \<lparr>x_ptr = Some [8]\<rparr>)"
    by blast
  moreover from not_self_logical [of "\<lparr>x_ptr = None\<rparr>"] h2 have "test (not_self \<lparr>x_ptr = None\<rparr>) 0"
    by blast
  ultimately show ?thesis using h1 h2 by simp
qed

text \<open>
  Claim C10 as stated fails: \<open>epsilon()\<close> and \<open>round_error()\<close> are declared in the
  specialization and never defined, so neither returns zero.
\<close>

theorem numeric_limits_epsilon_counterexample:
  "\<not> (returns_zero (epsilon numeric_limits_big_whole) \<and> returns_zero (round_error numeric_limits_big_whole))"
  by (simp add: numeric_limits_big_whole_def returns_zero_def)

text \<open>
  Claim C10, amended. The numeric-traits surface reports: minimum value equal to zero, the
  markers \<open>is_signed = false\<close>, \<open>is_integer = true\<close>, \<open>is_exact = true\<close> and
  \<open>is_bounded = false\<close> (no maximum, no infinity or NaN); \<open>epsilon()\<close> and
  \<open>round_error()\<close> are declared only and return nothing.
\<close>

theorem numeric_limits_surface:
  "returns_zero (min_fn numeric_limits_big_whole) \<and>
   epsilon numeric_limits_big_whole = Declared_Only \<and>
   round_error numeric_limits_big_whole = Declared_Only \<and>
   is_signed numeric_limits_big_whole = False \<and>
   is_integer numeric_limits_big_whole = True \<and>
   is_exact numeric_limits_big_whole = True \<and>
   is_bounded numeric_limits_big_whole = False \<and>
   max_fn numeric_limits_big_whole = Declared_Only \<and>
   has_infinity numeric_limits_big_whole = False \<and>
   has_quiet_NaN numeric_limits_big_whole = False \<and>
   has_signaling_NaN numeric_limits_big_whole = False"
  by (simp add: numeric_limits_big_whole_def returns_zero_def none_def any_def big_whole_default_def)

end
